theory Spec2Isabelle
  imports Main "HOL-Library.Word"
begin

section \<open>ChunkedVector (src/core/lib/gprpp/chunked_vector.h)\<close>

subsection \<open>Chunks in the arena\<close>

text \<open>
  A \<open>ChunkedVector<T, kChunkSize>\<close> is a singly linked list of chunks allocated from an
  arena, with a pointer \<open>first_\<close> to the first chunk and a pointer \<open>append_\<close> to the chunk
  that takes the next element. Pointers to chunks are addresses (\<open>None\<close> is \<open>nullptr\<close>),
  and the chunks live in the memory of the arena, a store from addresses to chunks.
  A \<open>ManualConstructor<T>\<close> is storage for one \<open>T\<close> that holds an object only between
  \<open>Init\<close> and \<open>Destroy\<close>: a slot is \<open>Some x\<close> when it holds \<open>x\<close> and \<open>None\<close> otherwise.
  What C++ leaves undefined (following a null or dangling pointer, indexing outside
  \<open>data\<close>, reading a slot that holds no object) is the fault \<open>InvalidAccess\<close>; a failed
  \<open>GPR_ASSERT\<close> is the fault \<open>AssertionFailed\<close>.
\<close>

datatype fault = AssertionFailed | InvalidAccess

text \<open>\<open>struct Chunk\<close>, lines 34-39; the fields are \<open>next\<close>, \<open>count\<close> and \<open>data\<close>.\<close>

record 'a Chunk =
  chunk_next :: "nat option"
  chunk_count :: nat
  chunk_data :: "'a option list"

text \<open>
  The members \<open>first_\<close> and \<open>append_\<close> (lines 201-202), and for \<open>arena_\<close> the memory of the
  arena: the chunks at the addresses below \<open>arena_size\<close> have been allocated.
\<close>

record 'a ChunkedVector =
  arena_chunks :: "nat \<Rightarrow> 'a Chunk"
  arena_size :: nat
  first_chunk :: "nat option"
  append_chunk :: "nat option"

text \<open>\<open>Chunk() = default\<close>: no successor, no element, \<open>kChunkSize\<close> slots without an object.\<close>

definition new_Chunk :: "nat \<Rightarrow> 'a Chunk" where
  "new_Chunk K = \<lparr>chunk_next = None, chunk_count = 0, chunk_data = replicate K None\<rparr>"

text \<open>
  Modelled from the spec: \<open>Arena\<close> (\<open>arena.h\<close>) is not among the sources; \<open>arena_->New<Chunk>()\<close>
  allocates a value of type \<open>Chunk\<close> from the region, here at the next unused address.
\<close>

definition Arena_New :: "nat \<Rightarrow> 'a ChunkedVector \<Rightarrow> nat \<times> 'a ChunkedVector" where
  "Arena_New K v =
     (arena_size v,
      v\<lparr>arena_chunks := (arena_chunks v)(arena_size v := new_Chunk K),
        arena_size := Suc (arena_size v)\<rparr>)"

text \<open>
  \<open>explicit ChunkedVector(Arena* arena)\<close>, line 42, on an arena that holds \<open>n\<close> chunks
  \<open>m\<close> already.
\<close>

definition new_ChunkedVector :: "(nat \<Rightarrow> 'a Chunk) \<Rightarrow> nat \<Rightarrow> 'a ChunkedVector" where
  "new_ChunkedVector m n =
     \<lparr>arena_chunks = m, arena_size = n, first_chunk = None, append_chunk = None\<rparr>"

text \<open>The state a vector is left in when it is moved from, lines 55-59.\<close>

definition moved_from :: "'a ChunkedVector \<Rightarrow> 'a ChunkedVector" where
  "moved_from v = v\<lparr>first_chunk := None, append_chunk := None\<rparr>"

subsection \<open>EmplaceBack\<close>

text \<open>
  \<open>AppendSlot\<close>, lines 186-198. The first part chooses the chunk to append to; the
  \<open>return\<close> statement takes the slot \<open>data[count]\<close> of that chunk and increments \<open>count\<close>.
  The slot is returned as the address of its chunk and its index.
\<close>

definition choose_append :: "nat \<Rightarrow> 'a ChunkedVector \<Rightarrow> fault + 'a ChunkedVector" where
  "choose_append K v =
     (case append_chunk v of
        None \<Rightarrow>
          if first_chunk v \<noteq> None then Inl AssertionFailed
          else (case Arena_New K v of
                  (a, v1) \<Rightarrow> Inr (v1\<lparr>first_chunk := Some a, append_chunk := Some a\<rparr>))
      | Some a \<Rightarrow>
          if \<not> a < arena_size v then Inl InvalidAccess
          else if chunk_count (arena_chunks v a) = K then
            (case chunk_next (arena_chunks v a) of
               None \<Rightarrow>
                 (case Arena_New K v of
                    (b, v1) \<Rightarrow>
                      Inr (v1\<lparr>arena_chunks := (arena_chunks v1)
                                 (a := (arena_chunks v1 a)\<lparr>chunk_next := Some b\<rparr>),
                               append_chunk := Some b\<rparr>))
             | Some b \<Rightarrow> Inr (v\<lparr>append_chunk := Some b\<rparr>))
          else Inr v)"

definition AppendSlot :: "nat \<Rightarrow> 'a ChunkedVector \<Rightarrow> fault + ((nat \<times> nat) \<times> 'a ChunkedVector)" where
  "AppendSlot K v =
     (case choose_append K v of
        Inl e \<Rightarrow> Inl e
      | Inr v2 \<Rightarrow>
          (case append_chunk v2 of
             None \<Rightarrow> Inl InvalidAccess
           | Some a \<Rightarrow>
               if \<not> a < arena_size v2 then Inl InvalidAccess
               else Inr ((a, chunk_count (arena_chunks v2 a)),
                         v2\<lparr>arena_chunks := (arena_chunks v2)
                              (a := (arena_chunks v2 a)
                                 \<lparr>chunk_count := Suc (chunk_count (arena_chunks v2 a))\<rparr>)\<rparr>)))"

text \<open>\<open>ManualConstructor::Init\<close> on the slot \<open>data[i]\<close> of the chunk at \<open>a\<close>.\<close>

definition slot_Init :: "nat \<times> nat \<Rightarrow> 'a \<Rightarrow> 'a ChunkedVector \<Rightarrow> fault + 'a ChunkedVector" where
  "slot_Init slot x v =
     (case slot of
        (a, i) \<Rightarrow>
          if a < arena_size v \<and> i < length (chunk_data (arena_chunks v a))
          then Inr (v\<lparr>arena_chunks := (arena_chunks v)
                       (a := (arena_chunks v a)
                          \<lparr>chunk_data := (chunk_data (arena_chunks v a))[i := Some x]\<rparr>)\<rparr>)
          else Inl InvalidAccess)"

text \<open>\<open>EmplaceBack\<close>, lines 72-75.\<close>

definition EmplaceBack :: "nat \<Rightarrow> 'a \<Rightarrow> 'a ChunkedVector \<Rightarrow> fault + 'a ChunkedVector" where
  "EmplaceBack K x v =
     (case AppendSlot K v of
        Inl e \<Rightarrow> Inl e
      | Inr (slot, v1) \<Rightarrow> slot_Init slot x v1)"

subsection \<open>PopBack\<close>

text \<open>
  The loop of lines 82-85, \<open>while (chunk->next != append_) chunk = chunk->next\<close>. It
  follows the \<open>next\<close> pointers and need not end on an arbitrary store, so not returning is
  the value \<open>None\<close>.
\<close>

partial_function (option) find_previous ::
  "'a ChunkedVector \<Rightarrow> nat option \<Rightarrow> (fault + nat) option" where
  "find_previous v chunk =
     (case chunk of
        None \<Rightarrow> Some (Inl InvalidAccess)
      | Some c \<Rightarrow>
          if \<not> c < arena_size v then Some (Inl InvalidAccess)
          else if chunk_next (arena_chunks v c) \<noteq> append_chunk v
          then find_previous v (chunk_next (arena_chunks v c))
          else Some (Inr c))"

text \<open>
  Lines 88-92: the last element of the chunk at \<open>append_\<close> is moved out, its slot destroyed
  and \<open>count\<close> decremented. With \<open>count = 0\<close> the index \<open>count - 1\<close> wraps around and lies
  outside \<open>data\<close>.
\<close>

definition take_last :: "'a ChunkedVector \<Rightarrow> fault + ('a \<times> 'a ChunkedVector)" where
  "take_last v =
     (case append_chunk v of
        None \<Rightarrow> Inl InvalidAccess
      | Some a \<Rightarrow>
          if \<not> a < arena_size v then Inl InvalidAccess
          else if chunk_count (arena_chunks v a) = 0 then Inl InvalidAccess
          else
            (let c = arena_chunks v a; last = chunk_count c - 1 in
             if \<not> last < length (chunk_data c) then Inl InvalidAccess
             else (case chunk_data c ! last of
                     None \<Rightarrow> Inl InvalidAccess
                   | Some result \<Rightarrow>
                       Inr (result,
                            v\<lparr>arena_chunks := (arena_chunks v)
                                 (a := c\<lparr>chunk_count := last,
                                         chunk_data := (chunk_data c)[last := None]\<rparr>)\<rparr>))))"

text \<open>\<open>PopBack\<close>, lines 78-93.\<close>

definition PopBack :: "'a ChunkedVector \<Rightarrow> (fault + ('a \<times> 'a ChunkedVector)) option" where
  "PopBack v =
     (case append_chunk v of
        None \<Rightarrow> Some (Inl AssertionFailed)
      | Some a \<Rightarrow>
          if \<not> a < arena_size v then Some (Inl InvalidAccess)
          else if chunk_count (arena_chunks v a) = 0 then
            (if first_chunk v = append_chunk v then Some (Inl AssertionFailed)
             else (case find_previous v (first_chunk v) of
                     None \<Rightarrow> None
                   | Some (Inl e) \<Rightarrow> Some (Inl e)
                   | Some (Inr chunk) \<Rightarrow> Some (take_last (v\<lparr>append_chunk := Some chunk\<rparr>))))
          else Some (take_last v))"

subsection \<open>Clear and size\<close>

text \<open>
  The loop of \<open>Clear\<close>, lines 96-103: every chunk it visits has a count other than 0 and
  is left with count 0, so it ends on every store.
\<close>

definition destroy_chunk :: "'a Chunk \<Rightarrow> 'a Chunk" where
  "destroy_chunk c =
     c\<lparr>chunk_data := replicate (chunk_count c) None @ drop (chunk_count c) (chunk_data c),
       chunk_count := 0\<rparr>"

function Clear_loop :: "'a ChunkedVector \<Rightarrow> nat option \<Rightarrow> fault + 'a ChunkedVector" where
  "Clear_loop v chunk =
     (case chunk of
        None \<Rightarrow> Inr v
      | Some a \<Rightarrow>
          if \<not> a < arena_size v then Inl InvalidAccess
          else if chunk_count (arena_chunks v a) = 0 then Inr v
          else if length (chunk_data (arena_chunks v a)) < chunk_count (arena_chunks v a)
            \<or> None \<in> set (take (chunk_count (arena_chunks v a)) (chunk_data (arena_chunks v a)))
          then Inl InvalidAccess
          else Clear_loop
                 (v\<lparr>arena_chunks := (arena_chunks v)(a := destroy_chunk (arena_chunks v a))\<rparr>)
                 (chunk_next (arena_chunks v a)))"
  by pat_completeness auto
termination
proof (relation "measure (\<lambda>(v, chunk).
    card {a. a < arena_size v \<and> chunk_count (arena_chunks v a) \<noteq> 0})")
  show "wf (measure (\<lambda>(v :: 'a ChunkedVector, chunk :: nat option).
    card {a. a < arena_size v \<and> chunk_count (arena_chunks v a) \<noteq> 0}))"
    by simp
next
  fix v :: "'a ChunkedVector" and chunk :: "nat option" and a :: nat
  assume a: "\<not> \<not> a < arena_size v" and c: "chunk_count (arena_chunks v a) \<noteq> 0"
  let ?S = "{b. b < arena_size v \<and> chunk_count (arena_chunks v b) \<noteq> 0}"
  let ?v = "v\<lparr>arena_chunks := (arena_chunks v)(a := destroy_chunk (arena_chunks v a))\<rparr>"
  have fin: "finite ?S" by simp
  have eq: "{b. b < arena_size ?v \<and> chunk_count (arena_chunks ?v b) \<noteq> 0} = ?S - {a}"
    by (auto simp: destroy_chunk_def)
  have "a \<in> ?S" using a c by simp
  then have "card (?S - {a}) < card ?S"
    using fin by (meson card_Diff1_less)
  then show "((?v, chunk_next (arena_chunks v a)), (v, chunk))
      \<in> measure (\<lambda>(v, chunk). card {a. a < arena_size v \<and> chunk_count (arena_chunks v a) \<noteq> 0})"
    using eq by simp
qed

text \<open>\<open>Clear\<close>, lines 95-105.\<close>

definition Clear :: "'a ChunkedVector \<Rightarrow> fault + 'a ChunkedVector" where
  "Clear v =
     (case Clear_loop v (first_chunk v) of
        Inl e \<Rightarrow> Inl e
      | Inr v1 \<Rightarrow> Inr (v1\<lparr>append_chunk := first_chunk v1\<rparr>))"

text \<open>
  \<open>size\<close>, lines 177-183: the sum of the counts along the \<open>next\<close> pointers from \<open>first_\<close>.
  The loop need not end on an arbitrary store.
\<close>

partial_function (option) size_loop ::
  "'a ChunkedVector \<Rightarrow> nat option \<Rightarrow> nat \<Rightarrow> (fault + nat) option" where
  "size_loop v chunk n =
     (case chunk of
        None \<Rightarrow> Some (Inr n)
      | Some c \<Rightarrow>
          if \<not> c < arena_size v then Some (Inl InvalidAccess)
          else size_loop v (chunk_next (arena_chunks v c)) (n + chunk_count (arena_chunks v c)))"

definition size_ChunkedVector :: "'a ChunkedVector \<Rightarrow> (fault + nat) option" where
  "size_ChunkedVector v = size_loop v (first_chunk v) 0"

subsection \<open>Iteration\<close>

text \<open>
  \<open>class ForwardIterator\<close>, lines 108-132: the members \<open>chunk_\<close> and \<open>n_\<close>.
\<close>

type_synonym ForwardIterator = "nat option \<times> nat"

text \<open>\<open>end\<close>, line 165.\<close>

definition end_iterator :: ForwardIterator where
  "end_iterator = (None, 0)"

text \<open>\<open>begin\<close>, lines 161-164.\<close>

definition begin_iterator :: "'a ChunkedVector \<Rightarrow> fault + ForwardIterator" where
  "begin_iterator v =
     (case first_chunk v of
        None \<Rightarrow> Inr (None, 0)
      | Some c \<Rightarrow>
          if \<not> c < arena_size v then Inl InvalidAccess
          else if chunk_count (arena_chunks v c) = 0 then Inr end_iterator
          else Inr (Some c, 0))"

text \<open>
  \<open>operator++\<close>, lines 114-121: \<open>n_\<close> is incremented, and the loop moves to the next chunk
  for as long as \<open>n_\<close> is the count of the chunk. The loop need not end on an arbitrary
  store.
\<close>

partial_function (option) skip_chunks ::
  "'a ChunkedVector \<Rightarrow> nat option \<Rightarrow> nat \<Rightarrow> (fault + ForwardIterator) option" where
  "skip_chunks v chunk n =
     (case chunk of
        None \<Rightarrow> Some (Inr (None, n))
      | Some c \<Rightarrow>
          if \<not> c < arena_size v then Some (Inl InvalidAccess)
          else if n = chunk_count (arena_chunks v c)
          then skip_chunks v (chunk_next (arena_chunks v c)) 0
          else Some (Inr (Some c, n)))"

definition increment :: "'a ChunkedVector \<Rightarrow> ForwardIterator \<Rightarrow> (fault + ForwardIterator) option" where
  "increment v it = skip_chunks v (fst it) (Suc (snd it))"

text \<open>\<open>operator*\<close>, line 112: the object in the slot \<open>data[n_]\<close> of the chunk.\<close>

definition dereference :: "'a ChunkedVector \<Rightarrow> ForwardIterator \<Rightarrow> fault + 'a" where
  "dereference v it =
     (case fst it of
        None \<Rightarrow> Inl InvalidAccess
      | Some c \<Rightarrow>
          if \<not> c < arena_size v \<or> \<not> snd it < length (chunk_data (arena_chunks v c))
          then Inl InvalidAccess
          else (case chunk_data (arena_chunks v c) ! snd it of
                  None \<Rightarrow> Inl InvalidAccess
                | Some x \<Rightarrow> Inr x))"

text \<open>
  The loop \<open>for (; begin != end; ++begin)\<close> over a vector, as in the constructor of lines
  43-48 and in every range-based \<open>for\<close>: the values it visits, in order.
\<close>

partial_function (option) collect ::
  "'a ChunkedVector \<Rightarrow> ForwardIterator \<Rightarrow> 'a list \<Rightarrow> (fault + 'a list) option" where
  "collect v it acc =
     (if it = end_iterator then Some (Inr acc)
      else (case dereference v it of
              Inl e \<Rightarrow> Some (Inl e)
            | Inr x \<Rightarrow>
                (case increment v it of
                   None \<Rightarrow> None
                 | Some (Inl e) \<Rightarrow> Some (Inl e)
                 | Some (Inr it') \<Rightarrow> collect v it' (acc @ [x]))))"

definition iterate :: "'a ChunkedVector \<Rightarrow> (fault + 'a list) option" where
  "iterate v =
     (case begin_iterator v of
        Inl e \<Rightarrow> Some (Inl e)
      | Inr it \<Rightarrow> collect v it [])"


subsection \<open>The vectors a program can build, and their elements\<close>

text \<open>
  Every \<open>ChunkedVector\<close> starts empty; the other constructors and the assignments fill it
  with \<open>EmplaceBack\<close>, exchange it with another vector or move it, and the destructor is
  \<open>Clear\<close>. So the vectors a program can hold are those built from an empty one by
  \<open>EmplaceBack\<close>, \<open>PopBack\<close> and \<open>Clear\<close>, and those left behind by a move.
\<close>

inductive reachable :: "nat \<Rightarrow> 'a ChunkedVector \<Rightarrow> bool" for K :: nat where
  reachable_new: "reachable K (new_ChunkedVector m n)"
| reachable_EmplaceBack: "reachable K v \<Longrightarrow> EmplaceBack K x v = Inr v' \<Longrightarrow> reachable K v'"
| reachable_PopBack: "reachable K v \<Longrightarrow> PopBack v = Some (Inr (x, v')) \<Longrightarrow> reachable K v'"
| reachable_Clear: "reachable K v \<Longrightarrow> Clear v = Inr v' \<Longrightarrow> reachable K v'"
| reachable_moved_from: "reachable K v \<Longrightarrow> reachable K (moved_from v)"

text \<open>
  The addresses of the chunks from a pointer on, along \<open>next\<close>; at most \<open>fuel\<close> of them.
\<close>

fun chunks_from :: "'a ChunkedVector \<Rightarrow> nat \<Rightarrow> nat option \<Rightarrow> nat list" where
  "chunks_from v 0 p = []"
| "chunks_from v (Suc fuel) p =
     (case p of
        None \<Rightarrow> []
      | Some a \<Rightarrow>
          if a < arena_size v then a # chunks_from v fuel (chunk_next (arena_chunks v a))
          else [])"

text \<open>
  The elements of a vector in the order of iteration: the objects in the first \<open>count\<close>
  slots of each chunk, chunk after chunk from \<open>first_\<close>.
\<close>

definition chunk_elements :: "'a Chunk \<Rightarrow> 'a list" where
  "chunk_elements c = List.map_filter (\<lambda>s. s) (take (chunk_count c) (chunk_data c))"

definition elements_of :: "'a ChunkedVector \<Rightarrow> nat list \<Rightarrow> 'a list" where
  "elements_of v as = concat (map (\<lambda>a. chunk_elements (arena_chunks v a)) as)"

definition elements :: "'a ChunkedVector \<Rightarrow> 'a list" where
  "elements v = elements_of v (chunks_from v (arena_size v) (first_chunk v))"

text \<open>
  \<open>chain v p as q\<close>: following \<open>next\<close> from the pointer \<open>p\<close> visits the allocated chunks
  \<open>as\<close>, in this order, and arrives at the pointer \<open>q\<close>.
\<close>

primrec chain :: "'a ChunkedVector \<Rightarrow> nat option \<Rightarrow> nat list \<Rightarrow> nat option \<Rightarrow> bool" where
  "chain v p [] q = (p = q)"
| "chain v p (a # as) q =
     (p = Some a \<and> a < arena_size v \<and> chain v (chunk_next (arena_chunks v a)) as q)"

text \<open>
  A chunk in use has \<open>kChunkSize\<close> slots, at most that many elements, and an object in
  each of its first \<open>count\<close> slots.
\<close>

definition chunk_ok :: "nat \<Rightarrow> 'a Chunk \<Rightarrow> bool" where
  "chunk_ok K c =
     (length (chunk_data c) = K \<and> chunk_count c \<le> K \<and>
      None \<notin> set (take (chunk_count c) (chunk_data c)))"

text \<open>
  The shape of a vector with at least one chunk: the chunks \<open>pre\<close>, then the chunk \<open>ap\<close>
  that \<open>append_\<close> points to, then the chunks \<open>post\<close> lead from \<open>first_\<close> to \<open>nullptr\<close>
  without repetition; the chunks before \<open>append_\<close> are full and those after it are empty.
\<close>

definition shape :: "nat \<Rightarrow> 'a ChunkedVector \<Rightarrow> nat list \<Rightarrow> nat \<Rightarrow> nat list \<Rightarrow> bool" where
  "shape K v pre ap post =
     (chain v (first_chunk v) (pre @ ap # post) None \<and> distinct (pre @ ap # post) \<and>
      (\<forall>a \<in> set (pre @ ap # post). chunk_ok K (arena_chunks v a)) \<and>
      append_chunk v = Some ap \<and>
      (\<forall>a \<in> set pre. chunk_count (arena_chunks v a) = K) \<and>
      (\<forall>a \<in> set post. chunk_count (arena_chunks v a) = 0))"

text \<open>
  The invariant of the class, with the chunks \<open>as\<close> of the vector: either both pointers
  are null and there is no chunk, or the vector has the shape above.
\<close>

definition invariant :: "nat \<Rightarrow> 'a ChunkedVector \<Rightarrow> nat list \<Rightarrow> bool" where
  "invariant K v as =
     ((first_chunk v = None \<and> append_chunk v = None \<and> as = []) \<or>
      (\<exists>pre ap post. as = pre @ ap # post \<and> shape K v pre ap post))"

text \<open>
  The vector after the last slot of the chunk at \<open>a\<close> has been taken for \<open>x\<close>, and after
  the last element of the chunk at \<open>a\<close> has been removed: what \<open>EmplaceBack\<close> and
  \<open>PopBack\<close> do to the chunk they settle on.
\<close>

definition push_at :: "nat \<Rightarrow> 'a \<Rightarrow> 'a ChunkedVector \<Rightarrow> 'a ChunkedVector" where
  "push_at a x v = v\<lparr>arena_chunks := (arena_chunks v)
     (a := (arena_chunks v a)\<lparr>chunk_count := Suc (chunk_count (arena_chunks v a)),
          chunk_data := (chunk_data (arena_chunks v a))[chunk_count (arena_chunks v a) := Some x]\<rparr>)\<rparr>"

definition pop_at :: "nat \<Rightarrow> 'a ChunkedVector \<Rightarrow> 'a ChunkedVector" where
  "pop_at a v = v\<lparr>arena_chunks := (arena_chunks v)
     (a := (arena_chunks v a)\<lparr>chunk_count := chunk_count (arena_chunks v a) - 1,
          chunk_data := (chunk_data (arena_chunks v a))[chunk_count (arena_chunks v a) - 1 := None]\<rparr>)\<rparr>"

text \<open>
  The vector after \<open>EmplaceBack\<close> and after \<open>PopBack\<close>, for building examples (the vector
  itself when the call faults), and two vectors with chunks of one slot: after two
  \<open>EmplaceBack\<close> and one \<open>PopBack\<close> the first holds the element 7 in its first chunk and
  \<open>append_\<close> points to its empty second chunk; the second is empty with one chunk.
\<close>

definition pushed :: "nat \<Rightarrow> 'a \<Rightarrow> 'a ChunkedVector \<Rightarrow> 'a ChunkedVector" where
  "pushed K x v = (case EmplaceBack K x v of Inl e \<Rightarrow> v | Inr v' \<Rightarrow> v')"

definition popped :: "'a ChunkedVector \<Rightarrow> 'a ChunkedVector" where
  "popped v = (case PopBack v of Some (Inr (x, v')) \<Rightarrow> v' | _ \<Rightarrow> v)"

definition example_vector :: "nat ChunkedVector" where
  "example_vector = popped (pushed 1 8 (pushed 1 7 (new_ChunkedVector (\<lambda>a. new_Chunk 1) 0)))"

definition example_empty :: "nat ChunkedVector" where
  "example_empty = popped (pushed 1 7 (new_ChunkedVector (\<lambda>a. new_Chunk 1) 0))"

section \<open>The memory quota fuzzer (test/core/resource_quota/memory_quota_fuzzer.cc)\<close>

subsection \<open>The messages the fuzzer is driven by\<close>

text \<open>
  The fuzzer reads a \<open>memory_quota_fuzzer::Msg\<close>: a list of actions. Every action carries
  the three ids \<open>quota\<close>, \<open>allocator\<close> and \<open>allocation\<close> (C++ \<open>int\<close>) and one
  \<open>action_type\<close>. The generated protobuf header is not among the sources; the shape
  below is the one the accessors used in \<open>RunMsg\<close> show. The bounds of an allocation
  request are unsigned and are passed to \<open>MemoryRequest(size_t, size_t)\<close>; the quota
  size is compared with \<open>uint64_t\<close> values, so it is a 64-bit word.
\<close>

datatype Pass = BENIGN | IDLE | DESTRUCTIVE | PASS_UNRECOGNIZED

datatype ReclamationPass = kBenign | kIdle | kDestructive

datatype Action =
  Action (quota: int) (allocator: int) (allocation: int) (action_type_case: ActionType)
and ActionType =
    kFlushExecCtx
  | kCreateQuota
  | kDeleteQuota
  | kCreateAllocator
  | kDeleteAllocator
  | kSetQuotaSize (set_quota_size: "64 word")
  | kRebindQuota
  | kCreateAllocation (alloc_min: nat) (alloc_max: nat)
  | kDeleteAllocation
  | kPostReclaimer (synchronous: bool) (cfg_pass: Pass) (cfg_msg: "Action list")
  | ACTION_TYPE_NOT_SET

text \<open>\<open>MapReclamationPass\<close>, lines 29-40: an unrecognised pass falls to the default.\<close>

fun MapReclamationPass :: "Pass \<Rightarrow> ReclamationPass" where
  "MapReclamationPass BENIGN = kBenign"
| "MapReclamationPass IDLE = kIdle"
| "MapReclamationPass DESTRUCTIVE = kDestructive"
| "MapReclamationPass PASS_UNRECOGNIZED = kBenign"

subsection \<open>The quota objects the fuzzer drives\<close>

text \<open>
  A reclaimer is a closure. The two closures the fuzzer builds capture the configured
  message; the synchronous one runs it inside the sweep, the asynchronous one schedules a
  closure on the \<open>ExecCtx\<close> that runs it later.
\<close>

datatype Reclaimer = SyncReclaimer "Action list" | AsyncReclaimer "Action list"

text \<open>
  Modelled from the spec: \<open>memory_quota.h\<close> and \<open>memory_quota.cc\<close> (\<open>MemoryQuota\<close>,
  \<open>MemoryOwner\<close>, \<open>MemoryAllocator::Reservation\<close>) are not among the sources. A Quota has
  a mutable \<open>size_limit\<close>, an aggregate \<open>used\<close> counter and a mark that its reclamation
  pipeline has been scheduled; an Owner wraps one Allocator, which is bound to one Quota
  and tracks the usage attributed to it, and holds at most one reclaimer per tier; a
  Reservation holds its granted size and the Allocator that issued it. Quotas and Owners
  are shared objects: the registries of the fuzzer hold handles to them, Owners refer to
  their Quota and Reservations to their Allocator, so they live in a store addressed by
  number, and an object stays in the store for as long as something may refer to it.
\<close>

record Quota =
  size_limit :: nat
  quota_used :: nat
  reclamation_scheduled :: bool

text \<open>
  Modelled from the spec: an Owner wraps one Allocator: the Quota it is bound to, the usage
  attributed to it, and at most one active reclaimer per tier.
\<close>

record Owner =
  bound_quota :: nat
  attributed :: nat
  reclaimers :: "ReclamationPass \<Rightarrow> Reclaimer option"

text \<open>
  Modelled from the spec: a Reservation holds its \<open>granted\<close> size, and releases it to the
  Allocator that issued it.
\<close>

record Reservation =
  issuer :: nat
  granted :: nat

text \<open>
  Modelled from the spec: the Quotas and Owners created so far, by address. Addresses are
  given out in order and never reused.
\<close>

record World =
  quota_store :: "nat \<Rightarrow> Quota"
  quota_count :: nat
  owner_store :: "nat \<Rightarrow> Owner"
  owner_count :: nat

text \<open>
  The upper bound of the clamp in \<open>kSetQuotaSize\<close>,
  \<open>std::numeric_limits<ssize_t>::max()\<close>, for a 64-bit \<open>ssize_t\<close>.
\<close>

definition ssize_max :: "64 word" where
  "ssize_max = 0x7FFFFFFFFFFFFFFF"

text \<open>
  Modelled from the spec: \<open>Clamp\<close> of \<open>src/core/lib/gpr/useful.h\<close> is not among the
  sources; \<open>Clamp(val, min, max)\<close> brings \<open>val\<close> into the range from \<open>min\<close> to \<open>max\<close>,
  which is how the spec uses \<open>clamp\<close> for the granted size.
\<close>

definition Clamp :: "'a::linorder \<Rightarrow> 'a \<Rightarrow> 'a \<Rightarrow> 'a" where
  "Clamp val lo hi = (if val < lo then lo else if hi < val then hi else val)"

text \<open>
  Modelled from the spec: \<open>Create(initial_limit = unlimited)\<close> gives a new Quota with
  \<open>used = 0\<close>. The unlimited sentinel is taken to be the largest size the fuzzer can set.
\<close>

definition new_MemoryQuota :: "World \<Rightarrow> nat \<times> World" where
  "new_MemoryQuota w =
     (quota_count w,
      w\<lparr>quota_store := (quota_store w)
           (quota_count w := \<lparr>size_limit = unat ssize_max, quota_used = 0,
                               reclamation_scheduled = False\<rparr>),
        quota_count := Suc (quota_count w)\<rparr>)"

text \<open>
  Modelled from the spec: internal \<open>NoteUsageChanged\<close>; when the updated \<open>used\<close> exceeds
  \<open>size_limit\<close>, reclamation is scheduled unless it already is.
\<close>

definition NoteUsageChanged :: "Quota \<Rightarrow> Quota" where
  "NoteUsageChanged q =
     (if size_limit q < quota_used q then q\<lparr>reclamation_scheduled := True\<rparr> else q)"

text \<open>
  Modelled from the spec: \<open>SetSize(n)\<close> sets \<open>size_limit = n\<close>; if \<open>used > n\<close> it schedules
  the reclamation pipeline of this Quota and does not block the caller.
\<close>

definition SetSize :: "nat \<Rightarrow> nat \<Rightarrow> World \<Rightarrow> World" where
  "SetSize q n w =
     w\<lparr>quota_store := (quota_store w)
          (q := NoteUsageChanged ((quota_store w q)\<lparr>size_limit := n\<rparr>))\<rparr>"

text \<open>
  Modelled from the spec: \<open>CreateOwner()\<close> gives a new Owner bound to this Quota, with no
  attributed usage and no reclaimer.
\<close>

definition CreateMemoryOwner :: "nat \<Rightarrow> World \<Rightarrow> nat \<times> World" where
  "CreateMemoryOwner q w =
     (owner_count w,
      w\<lparr>owner_store := (owner_store w)
           (owner_count w := \<lparr>bound_quota = q, attributed = 0,
                               reclaimers = (\<lambda>p. None)\<rparr>),
        owner_count := Suc (owner_count w)\<rparr>)"

text \<open>
  Modelled from the spec: \<open>Rebind(newQuota)\<close> removes the usage attributed to the Allocator
  from the old Quota, adds it to the new one and updates the bound Quota.
\<close>

definition Rebind :: "nat \<Rightarrow> nat \<Rightarrow> World \<Rightarrow> World" where
  "Rebind a q w =
     (let ow = owner_store w a;
          qs1 = (quota_store w)
                  (bound_quota ow := (quota_store w (bound_quota ow))
                     \<lparr>quota_used := quota_used (quota_store w (bound_quota ow)) - attributed ow\<rparr>);
          qs2 = qs1(q := NoteUsageChanged ((qs1 q)\<lparr>quota_used := quota_used (qs1 q) + attributed ow\<rparr>))
      in w\<lparr>quota_store := qs2,
           owner_store := (owner_store w)(a := ow\<lparr>bound_quota := q\<rparr>)\<rparr>)"

text \<open>
  Modelled from the spec: \<open>MakeReservation(min, max)\<close>, with
  \<open>0 \<le> min \<le> max \<le> GlobalMaxRequestSize\<close>, computes
  \<open>granted = clamp(min, max, min + headroom)\<close>, where \<open>headroom\<close> is the remaining budget of
  the bound Quota (\<open>size_limit - used\<close>, floored at 0: the subtraction of \<open>nat\<close>). The grant
  increases the usage attributed to the Allocator and \<open>used\<close> of the bound Quota by
  \<open>granted\<close> and may schedule reclamation. The fuzzer calls it behind its own guards and
  uses what it returns as the Reservation.
\<close>

definition MakeReservation :: "nat \<Rightarrow> nat \<Rightarrow> nat \<Rightarrow> World \<Rightarrow> Reservation \<times> World" where
  "MakeReservation a mn mx w =
     (let ow = owner_store w a;
          q = quota_store w (bound_quota ow);
          headroom = size_limit q - quota_used q;
          g = Clamp (mn + headroom) mn mx
      in (\<lparr>issuer = a, granted = g\<rparr>,
          w\<lparr>quota_store := (quota_store w)
               (bound_quota ow := NoteUsageChanged (q\<lparr>quota_used := quota_used q + g\<rparr>)),
            owner_store := (owner_store w)(a := ow\<lparr>attributed := attributed ow + g\<rparr>)\<rparr>))"

text \<open>
  Modelled from the spec: releasing a Reservation decreases the usage attributed to its
  Allocator and \<open>used\<close> of the Quota the Allocator is bound to at release time by
  \<open>granted\<close>.
\<close>

definition release_Reservation :: "Reservation \<Rightarrow> World \<Rightarrow> World" where
  "release_Reservation r w =
     (let ow = owner_store w (issuer r);
          q = quota_store w (bound_quota ow)
      in w\<lparr>quota_store := (quota_store w)
               (bound_quota ow := q\<lparr>quota_used := quota_used q - granted r\<rparr>),
            owner_store := (owner_store w)
               (issuer r := ow\<lparr>attributed := attributed ow - granted r\<rparr>)\<rparr>)"

text \<open>
  Modelled from the spec: \<open>PostReclaimer(pass, callback)\<close> stores the callback as the sole
  active reclaimer for \<open>pass\<close> on this Owner, replacing a previous one for that tier.
\<close>

definition PostReclaimer :: "nat \<Rightarrow> ReclamationPass \<Rightarrow> Reclaimer \<Rightarrow> World \<Rightarrow> World" where
  "PostReclaimer a p r w =
     w\<lparr>owner_store := (owner_store w)
          (a := (owner_store w a)\<lparr>reclaimers := (reclaimers (owner_store w a))(p \<mapsto> r)\<rparr>)\<rparr>"

text \<open>
  Modelled from the spec: destroying an Owner clears all its tier registrations. The usage
  attributed to its Allocator stays until the Reservations it issued are released.
\<close>

definition destroy_MemoryOwner :: "nat \<Rightarrow> World \<Rightarrow> World" where
  "destroy_MemoryOwner a w =
     w\<lparr>owner_store := (owner_store w)
          (a := (owner_store w a)\<lparr>reclaimers := (\<lambda>p. None)\<rparr>)\<rparr>"

text \<open>
  Modelled from the spec: the spec leaves open what deleting a Quota with bound Owners
  does; here destroying the handle of a Quota leaves the shared Quota to the Owners still
  bound to it.
\<close>

definition destroy_MemoryQuota :: "nat \<Rightarrow> World \<Rightarrow> World" where
  "destroy_MemoryQuota q w = w"

subsection \<open>The fuzzer\<close>

text \<open>
  The three registries of class \<open>Fuzzer\<close> (\<open>std::map\<close> from \<open>int\<close>; the trailing underscore
  of the member names is dropped), and the objects their
  entries refer to.
\<close>

record Fuzzer =
  memory_quotas :: "int \<rightharpoonup> nat"
  memory_allocators :: "int \<rightharpoonup> nat"
  allocations :: "int \<rightharpoonup> Reservation"
  world :: World

text \<open>
  What the fuzzer takes from its environment: \<open>MemoryRequest::max_allowed_size()\<close>, a
  constant of the missing header, and \<open>ExecCtx::Get()->Flush()\<close>, which drains the
  scheduled work (the reclamation pipeline and the closures of asynchronous reclaimers,
  which run \<open>RunMsg\<close> again) and so acts on the whole fuzzer.
\<close>

record Env =
  max_allowed_size :: nat
  Flush :: "Fuzzer \<Rightarrow> Fuzzer"

text \<open>\<open>WithQuota\<close> and \<open>WithAllocator\<close>, lines 137-149: an id that is not found returns.\<close>

definition WithQuota :: "int \<Rightarrow> (nat \<Rightarrow> Fuzzer \<Rightarrow> Fuzzer) \<Rightarrow> Fuzzer \<Rightarrow> Fuzzer" where
  "WithQuota qid f s = (case memory_quotas s qid of None \<Rightarrow> s | Some q \<Rightarrow> f q s)"

definition WithAllocator :: "int \<Rightarrow> (nat \<Rightarrow> Fuzzer \<Rightarrow> Fuzzer) \<Rightarrow> Fuzzer \<Rightarrow> Fuzzer" where
  "WithAllocator aid f s = (case memory_allocators s aid of None \<Rightarrow> s | Some a \<Rightarrow> f a s)"

text \<open>
  One iteration of the loop of \<open>RunMsg\<close>, lines 55-133. \<open>std::map::emplace\<close> inserts only
  when the key is absent; the object built for it is destroyed otherwise, and
  \<open>std::map::erase\<close> destroys the entry it removes, if there is one. In \<open>kPostReclaimer\<close>
  the call of \<open>PostReclaimer\<close> is inside the \<open>else\<close> branch.
\<close>

fun RunAction :: "Env \<Rightarrow> Action \<Rightarrow> Fuzzer \<Rightarrow> Fuzzer" where
  "RunAction env (Action qid aid rid kFlushExecCtx) s = Flush env s"
| "RunAction env (Action qid aid rid kCreateQuota) s =
     (case new_MemoryQuota (world s) of (q, w) \<Rightarrow>
        (if memory_quotas s qid = None
         then s\<lparr>memory_quotas := (memory_quotas s)(qid \<mapsto> q), world := w\<rparr>
         else s\<lparr>world := destroy_MemoryQuota q w\<rparr>))"
| "RunAction env (Action qid aid rid kDeleteQuota) s =
     (case memory_quotas s qid of
        None \<Rightarrow> s
      | Some q \<Rightarrow> s\<lparr>memory_quotas := (memory_quotas s)(qid := None),
                    world := destroy_MemoryQuota q (world s)\<rparr>)"
| "RunAction env (Action qid aid rid kCreateAllocator) s =
     WithQuota qid (\<lambda>q s.
       (case CreateMemoryOwner q (world s) of (a, w) \<Rightarrow>
          (if memory_allocators s aid = None
           then s\<lparr>memory_allocators := (memory_allocators s)(aid \<mapsto> a), world := w\<rparr>
           else s\<lparr>world := destroy_MemoryOwner a w\<rparr>))) s"
| "RunAction env (Action qid aid rid kDeleteAllocator) s =
     (case memory_allocators s aid of
        None \<Rightarrow> s
      | Some a \<Rightarrow> s\<lparr>memory_allocators := (memory_allocators s)(aid := None),
                    world := destroy_MemoryOwner a (world s)\<rparr>)"
| "RunAction env (Action qid aid rid (kSetQuotaSize n)) s =
     WithQuota qid (\<lambda>q s.
       s\<lparr>world := SetSize q (unat (Clamp n 0 ssize_max)) (world s)\<rparr>) s"
| "RunAction env (Action qid aid rid kRebindQuota) s =
     WithQuota qid (\<lambda>q s.
       WithAllocator aid (\<lambda>a s. s\<lparr>world := Rebind a q (world s)\<rparr>) s) s"
| "RunAction env (Action qid aid rid (kCreateAllocation mn mx)) s =
     (if mn > mx then s
      else if mx > max_allowed_size env then s
      else WithAllocator aid (\<lambda>a s.
        (case MakeReservation a mn mx (world s) of (alloc, w) \<Rightarrow>
           (if allocations s rid = None
            then s\<lparr>allocations := (allocations s)(rid \<mapsto> alloc), world := w\<rparr>
            else s\<lparr>world := release_Reservation alloc w\<rparr>))) s)"
| "RunAction env (Action qid aid rid kDeleteAllocation) s =
     (case allocations s rid of
        None \<Rightarrow> s
      | Some r \<Rightarrow> s\<lparr>allocations := (allocations s)(rid := None),
                    world := release_Reservation r (world s)\<rparr>)"
| "RunAction env (Action qid aid rid (kPostReclaimer sync p m)) s =
     (if sync then s
      else WithAllocator aid (\<lambda>a s.
        s\<lparr>world := PostReclaimer a (MapReclamationPass p) (AsyncReclaimer m) (world s)\<rparr>) s)"
| "RunAction env (Action qid aid rid ACTION_TYPE_NOT_SET) s = s"

text \<open>\<open>RunMsg\<close>, lines 53-135: the actions of the message, in order.\<close>

fun RunMsg :: "Env \<Rightarrow> Action list \<Rightarrow> Fuzzer \<Rightarrow> Fuzzer" where
  "RunMsg env [] s = s"
| "RunMsg env (action # rest) s = RunMsg env rest (RunAction env action s)"

text \<open>A fresh \<open>Fuzzer\<close>: empty registries, no object yet.\<close>

definition new_Fuzzer :: Fuzzer where
  "new_Fuzzer =
     \<lparr>memory_quotas = Map.empty, memory_allocators = Map.empty, allocations = Map.empty,
      world = \<lparr>quota_store = (\<lambda>_. \<lparr>size_limit = 0, quota_used = 0, reclamation_scheduled = False\<rparr>),
               quota_count = 0,
               owner_store = (\<lambda>_. \<lparr>bound_quota = 0, attributed = 0, reclaimers = (\<lambda>p. None)\<rparr>),
               owner_count = 0\<rparr>\<rparr>"

text \<open>
  A concrete run to evaluate the fuzzer on: the request cap is 1024, nothing is scheduled
  that a flush would run, and quota 0 and allocator 0 on it have been created.
\<close>

definition example_env :: Env where
  "example_env = \<lparr>max_allowed_size = 1024, Flush = (\<lambda>s. s)\<rparr>"

definition example_fuzzer :: Fuzzer where
  "example_fuzzer =
     RunMsg example_env [Action 0 0 0 kCreateQuota, Action 0 0 0 kCreateAllocator] new_Fuzzer"

section \<open>The reclamation pipeline of a Quota\<close>

text \<open>
  Modelled from the spec: the reclamation pipeline (\<open>memory_quota.cc\<close>) is not among the
  sources. Per Quota the states are \<open>Normal\<close>, \<open>ReclaimingBenign\<close>, \<open>ReclaimingIdle\<close>,
  \<open>ReclaimingDestructive\<close> (here \<open>Reclaiming\<close> of the tier) and \<open>Exhausted\<close>. The
  pipeline keeps the Owners whose sweeps of the current tier have not signalled completion,
  and, for stating what it did, the trace of its events: a tier entered, a sweep
  dispatched to an Owner, a sweep completed, the return to \<open>Normal\<close>, and giving up in
  \<open>Exhausted\<close>.
\<close>

datatype PipelineState = Normal | Reclaiming ReclamationPass | Exhausted

text \<open>
  Modelled from the spec: what the pipeline does, as events of a trace.
\<close>

datatype PipelineEvent =
    Entered ReclamationPass
  | Dispatched ReclamationPass nat
  | Completed ReclamationPass nat
  | Settled
  | GaveUp

text \<open>
  Modelled from the spec: the state of the pipeline of one Quota, the Owners whose sweeps of
  the current tier are outstanding, and the trace so far.
\<close>

record Pipeline =
  pipeline_state :: PipelineState
  outstanding :: "nat list"
  pipeline_trace :: "PipelineEvent list"

text \<open>
  Modelled from the spec: a Quota starts in \<open>Normal\<close>.
\<close>

definition new_Pipeline :: Pipeline where
  "new_Pipeline = \<lparr>pipeline_state = Normal, outstanding = [], pipeline_trace = []\<rparr>"

text \<open>
  Modelled from the spec: the entry condition \<open>used > size_limit\<close> of the Quota \<open>q\<close>.
\<close>

definition over_budget :: "World \<Rightarrow> nat \<Rightarrow> bool" where
  "over_budget w q = (size_limit (quota_store w q) < quota_used (quota_store w q))"

text \<open>
  Modelled from the spec: the Owners of the Quota with a registered reclaimer for the tier.
\<close>

definition sweep_targets :: "World \<Rightarrow> nat \<Rightarrow> ReclamationPass \<Rightarrow> nat list" where
  "sweep_targets w q T =
     filter (\<lambda>a. bound_quota (owner_store w a) = q \<and> reclaimers (owner_store w a) T \<noteq> None)
       [0..<owner_count w]"

text \<open>Modelled from the spec: the tiers are ordered \<open>Benign < Idle < Destructive\<close>.\<close>

fun next_pass :: "ReclamationPass \<Rightarrow> ReclamationPass option" where
  "next_pass kBenign = Some kIdle"
| "next_pass kIdle = Some kDestructive"
| "next_pass kDestructive = None"

text \<open>
  Modelled from the spec: the number of tiers above a tier.
\<close>

fun tiers_left :: "ReclamationPass \<Rightarrow> nat" where
  "tiers_left kBenign = 2"
| "tiers_left kIdle = 1"
| "tiers_left kDestructive = 0"

text \<open>
  Modelled from the spec: on entering a reclaiming state for tier \<open>T\<close>, one sweep is
  dispatched to every Owner of the Quota that has a registered reclaimer for \<open>T\<close>, and the
  pipeline waits for all of them. After all sweeps for tier \<open>T\<close> have completed, \<open>used \<le>
  size_limit\<close> is checked again: if it holds the Quota returns to \<open>Normal\<close>; if not, and
  \<open>T\<close> is not the last tier, the pipeline escalates to the next tier; if \<open>T\<close> is
  \<open>Destructive\<close>, the Quota enters \<open>Exhausted\<close>. A tier with no target has all its sweeps
  completed at once.
\<close>

function enter_tier :: "World \<Rightarrow> nat \<Rightarrow> ReclamationPass \<Rightarrow> Pipeline \<Rightarrow> Pipeline"
  and tier_done :: "World \<Rightarrow> nat \<Rightarrow> ReclamationPass \<Rightarrow> Pipeline \<Rightarrow> Pipeline" where
  "enter_tier w q T p =
     (let targets = sweep_targets w q T;
          p1 = p\<lparr>pipeline_state := Reclaiming T, outstanding := targets,
                 pipeline_trace := pipeline_trace p @ Entered T # map (Dispatched T) targets\<rparr>
      in if targets = [] then tier_done w q T p1 else p1)"
| "tier_done w q T p =
     (if \<not> over_budget w q
      then p\<lparr>pipeline_state := Normal, pipeline_trace := pipeline_trace p @ [Settled]\<rparr>
      else (case next_pass T of
              Some T' \<Rightarrow> enter_tier w q T' p
            | None \<Rightarrow> p\<lparr>pipeline_state := Exhausted,
                         pipeline_trace := pipeline_trace p @ [GaveUp]\<rparr>))"
  by pat_completeness auto
termination
  by (relation "measure (\<lambda>x. case x of
         Inl (w, q, T, p) \<Rightarrow> 2 * tiers_left T + 1
       | Inr (w, q, T, p) \<Rightarrow> 2 * tiers_left T)")
     (auto elim: next_pass.elims)

declare enter_tier.simps [simp del] tier_done.simps [simp del]

text \<open>
  Modelled from the spec: what the pipeline of Quota \<open>q\<close> reacts to, in the state \<open>w\<close> the
  quotas and owners have at that moment. After a usage-changing operation or \<open>SetSize\<close>, a
  Quota in \<open>Normal\<close> or \<open>Exhausted\<close> that is over budget starts with the tier \<open>Benign\<close>;
  while it is reclaiming, the pipeline is already in progress. When a sweep signals
  completion (also because its Owner is gone) it is no longer outstanding, and the tier is
  done when none is. Between two events the rest of the system may change quotas and
  owners in any way, so a run is a list of such states with what happened in each.
\<close>

text \<open>
  Modelled from the spec: a usage change (or \<open>SetSize\<close>), or the completion of the sweep
  dispatched to an Owner.
\<close>

datatype PipelineInput = UsageChanged | SweepCompleted nat

text \<open>
  Modelled from the spec: the reaction of the pipeline to one input.
\<close>

definition pipeline_step :: "World \<Rightarrow> nat \<Rightarrow> PipelineInput \<Rightarrow> Pipeline \<Rightarrow> Pipeline" where
  "pipeline_step w q i p =
     (case i of
        UsageChanged \<Rightarrow>
          (case pipeline_state p of
             Reclaiming T \<Rightarrow> p
           | _ \<Rightarrow> if over_budget w q then enter_tier w q kBenign p else p)
      | SweepCompleted a \<Rightarrow>
          (case pipeline_state p of
             Reclaiming T \<Rightarrow>
               if a \<in> set (outstanding p) then
                 (let p1 = p\<lparr>outstanding := removeAll a (outstanding p),
                              pipeline_trace := pipeline_trace p @ [Completed T a]\<rparr>
                  in if outstanding p1 = [] then tier_done w q T p1 else p1)
               else p
           | _ \<Rightarrow> p))"

text \<open>
  Modelled from the spec: the pipeline along a run.
\<close>

fun pipeline_run :: "nat \<Rightarrow> (World \<times> PipelineInput) list \<Rightarrow> Pipeline \<Rightarrow> Pipeline" where
  "pipeline_run q [] p = p"
| "pipeline_run q ((w, i) # rest) p = pipeline_run q rest (pipeline_step w q i p)"

subsection \<open>The order of the tiers, read off a trace\<close>

text \<open>
  The sweeps that have been dispatched and have not completed, and the tiers entered
  since the pipeline last came to rest, after a trace.
\<close>

fun note_sweep :: "(ReclamationPass \<times> nat) set \<Rightarrow> PipelineEvent \<Rightarrow> (ReclamationPass \<times> nat) set" where
  "note_sweep S (Dispatched T a) = insert (T, a) S"
| "note_sweep S (Completed T a) = S - {(T, a)}"
| "note_sweep S e = S"

definition pending_sweeps :: "PipelineEvent list \<Rightarrow> (ReclamationPass \<times> nat) set" where
  "pending_sweeps tr = foldl note_sweep {} tr"

fun note_tier :: "ReclamationPass list \<Rightarrow> PipelineEvent \<Rightarrow> ReclamationPass list" where
  "note_tier Ts (Entered T) = Ts @ [T]"
| "note_tier Ts Settled = []"
| "note_tier Ts GaveUp = []"
| "note_tier Ts e = Ts"

definition tiers_entered :: "PipelineEvent list \<Rightarrow> ReclamationPass list" where
  "tiers_entered tr = foldl note_tier [] tr"

fun tiers_below :: "ReclamationPass \<Rightarrow> ReclamationPass list" where
  "tiers_below kBenign = []"
| "tiers_below kIdle = [kBenign]"
| "tiers_below kDestructive = [kBenign, kIdle]"

text \<open>
  An event is in order after the trace \<open>tr\<close>: a tier is entered only when exactly the
  tiers below it have been entered, in their order, and no sweep is pending; a sweep of a
  tier is dispatched only in that tier, entered after all tiers below it, and while no
  sweep of another tier is pending; the pipeline gives up only after all three tiers, with
  no sweep pending. A trace respects the order of the tiers when each of its events is in
  order after the events before it.
\<close>

fun in_order :: "PipelineEvent list \<Rightarrow> PipelineEvent \<Rightarrow> bool" where
  "in_order tr (Entered T) = (tiers_entered tr = tiers_below T \<and> pending_sweeps tr = {})"
| "in_order tr (Dispatched T a) =
     (tiers_entered tr = tiers_below T @ [T] \<and> (\<forall>s \<in> pending_sweeps tr. fst s = T))"
| "in_order tr GaveUp =
     (tiers_entered tr = [kBenign, kIdle, kDestructive] \<and> pending_sweeps tr = {})"
| "in_order tr e = True"

definition respects_tier_order :: "PipelineEvent list \<Rightarrow> bool" where
  "respects_tier_order tr = (\<forall>n < length tr. in_order (take n tr) (tr ! n))"

text \<open>What the pipeline keeps true of its state and its trace.\<close>

definition pipeline_inv :: "Pipeline \<Rightarrow> bool" where
  "pipeline_inv p =
     (respects_tier_order (pipeline_trace p) \<and>
      (case pipeline_state p of
         Reclaiming T \<Rightarrow>
           pending_sweeps (pipeline_trace p) = Pair T ` set (outstanding p) \<and>
           tiers_entered (pipeline_trace p) = tiers_below T @ [T]
       | _ \<Rightarrow> pending_sweeps (pipeline_trace p) = {} \<and> tiers_entered (pipeline_trace p) = []))"

text \<open>
  A Quota under pressure to run the pipeline on: the fuzzer has created quota 0 with the
  allocators 0 and 1, posted an asynchronous \<open>BENIGN\<close> reclaimer on allocator 0 and an
  \<open>IDLE\<close> one on allocator 1, reserved memory and then set the quota size to 5.
\<close>

definition pressure_msg :: "Action list" where
  "pressure_msg =
     [Action 0 0 0 kCreateQuota, Action 0 0 0 kCreateAllocator, Action 0 1 0 kCreateAllocator,
      Action 0 0 0 (kPostReclaimer False BENIGN []), Action 0 1 0 (kPostReclaimer False IDLE []),
      Action 0 0 0 (kCreateAllocation 10 50), Action 0 0 0 (kSetQuotaSize 5)]"

definition pressure_fuzzer :: Fuzzer where
  "pressure_fuzzer = RunMsg example_env pressure_msg new_Fuzzer"

definition pressure_world :: World where
  "pressure_world = world pressure_fuzzer"

section \<open>Properties of ChunkedVector\<close>

subsection \<open>Chains of chunks and the elements along them\<close>

lemma chain_append:
  "chain v p (xs @ ys) q = (\<exists>r. chain v p xs r \<and> chain v r ys q)"
  by (induction xs arbitrary: p) auto

lemma chain_allocated: "chain v p as q \<Longrightarrow> a \<in> set as \<Longrightarrow> a < arena_size v"
  by (induction as arbitrary: p) auto

lemma chain_frame:
  "chain v p as q \<Longrightarrow> arena_size v \<le> arena_size v' \<Longrightarrow>
   (\<And>a. a \<in> set as \<Longrightarrow> chunk_next (arena_chunks v' a) = chunk_next (arena_chunks v a)) \<Longrightarrow>
   chain v' p as q"
  by (induction as arbitrary: p) auto

lemma chain_length:
  assumes "chain v p as q" "distinct as"
  shows "length as \<le> arena_size v"
proof -
  have "set as \<subseteq> {..<arena_size v}"
    using assms(1) chain_allocated by fastforce
  then have "card (set as) \<le> card {..<arena_size v}"
    by (intro card_mono) auto
  then show ?thesis
    using assms(2) by (simp add: distinct_card)
qed

lemma chunks_from_chain:
  "chain v p as None \<Longrightarrow> length as \<le> fuel \<Longrightarrow> chunks_from v fuel p = as"
proof (induction as arbitrary: p fuel)
  case Nil
  then show ?case by (cases fuel) auto
next
  case (Cons a as)
  then show ?case by (cases fuel) auto
qed

lemma elements_chain:
  "chain v (first_chunk v) as None \<Longrightarrow> distinct as \<Longrightarrow> elements v = elements_of v as"
  by (simp add: elements_def chunks_from_chain chain_length)

lemma elements_of_frame:
  "(\<And>a. a \<in> set as \<Longrightarrow> arena_chunks v' a = arena_chunks v a) \<Longrightarrow>
   elements_of v' as = elements_of v as"
  by (induction as) (auto simp: elements_of_def)

lemma elements_of_append:
  "elements_of v (xs @ ys) = elements_of v xs @ elements_of v ys"
  by (simp add: elements_of_def)

lemma elements_of_Cons:
  "elements_of v (a # as) = chunk_elements (arena_chunks v a) @ elements_of v as"
  by (simp add: elements_of_def)

lemma elements_of_empty:
  "(\<And>a. a \<in> set as \<Longrightarrow> chunk_count (arena_chunks v a) = 0) \<Longrightarrow> elements_of v as = []"
  by (induction as) (auto simp: elements_of_def chunk_elements_def)

lemma chunk_elements_length:
  "chunk_ok K c \<Longrightarrow> length (chunk_elements c) = chunk_count c"
proof -
  have *: "None \<notin> set xs \<Longrightarrow> length (List.map_filter (\<lambda>s. s) xs) = length xs" for xs :: "'a option list"
  proof (induction xs)
    case Nil
    then show ?case by simp
  next
    case (Cons s xs)
    then show ?case by (cases s) auto
  qed
  show "chunk_ok K c \<Longrightarrow> length (chunk_elements c) = chunk_count c"
    by (simp add: chunk_ok_def chunk_elements_def *)
qed

lemma size_loop_chain:
  "chain v p as None \<Longrightarrow>
   size_loop v p n = Some (Inr (n + sum_list (map (\<lambda>a. chunk_count (arena_chunks v a)) as)))"
proof (induction as arbitrary: p n)
  case Nil
  then show ?case by (simp add: size_loop.simps)
next
  case (Cons a as)
  then show ?case
    by (subst size_loop.simps) (simp add: add.assoc)
qed

lemma elements_of_length:
  "(\<And>a. a \<in> set as \<Longrightarrow> chunk_ok K (arena_chunks v a)) \<Longrightarrow>
   length (elements_of v as) = sum_list (map (\<lambda>a. chunk_count (arena_chunks v a)) as)"
proof (induction as)
  case Nil
  then show ?case by (simp add: elements_of_def)
next
  case (Cons a as)
  have "length (chunk_elements (arena_chunks v a)) = chunk_count (arena_chunks v a)"
    using Cons.prems [of a] by (simp add: chunk_elements_length)
  then show ?case
    using Cons by (simp add: elements_of_Cons)
qed

lemma invariant_chain:
  "invariant K v as \<Longrightarrow> chain v (first_chunk v) as None \<and> distinct as \<and>
     (\<forall>a \<in> set as. chunk_ok K (arena_chunks v a))"
  by (auto simp: invariant_def shape_def)

lemma invariant_elements: "invariant K v as \<Longrightarrow> elements v = elements_of v as"
  using invariant_chain elements_chain by blast

lemma invariant_size:
  "invariant K v as \<Longrightarrow> size_ChunkedVector v = Some (Inr (length (elements v)))"
  using invariant_chain [of K v as] invariant_elements [of K v as]
    size_loop_chain [of v "first_chunk v" as 0] elements_of_length [of as K v]
  by (simp add: size_ChunkedVector_def)

subsection \<open>EmplaceBack keeps the invariant and appends\<close>

lemma chunk_elements_snoc:
  assumes "chunk_ok K c" "chunk_count c < K"
  shows "chunk_ok K (c\<lparr>chunk_count := Suc (chunk_count c),
                        chunk_data := (chunk_data c)[chunk_count c := Some x]\<rparr>)"
    and "chunk_elements (c\<lparr>chunk_count := Suc (chunk_count c),
                        chunk_data := (chunk_data c)[chunk_count c := Some x]\<rparr>)
          = chunk_elements c @ [x]"
proof -
  have len: "chunk_count c < length (chunk_data c)"
    using assms by (simp add: chunk_ok_def)
  have tk: "take (Suc (chunk_count c)) ((chunk_data c)[chunk_count c := Some x])
        = take (chunk_count c) (chunk_data c) @ [Some x]"
    using len by (simp add: take_Suc_conv_app_nth)
  show "chunk_ok K (c\<lparr>chunk_count := Suc (chunk_count c),
                        chunk_data := (chunk_data c)[chunk_count c := Some x]\<rparr>)"
    using assms tk by (simp add: chunk_ok_def)
  show "chunk_elements (c\<lparr>chunk_count := Suc (chunk_count c),
                        chunk_data := (chunk_data c)[chunk_count c := Some x]\<rparr>)
          = chunk_elements c @ [x]"
    using tk by (simp add: chunk_elements_def map_filter_def)
qed

lemma new_Chunk_ok: "chunk_ok K (new_Chunk K)" "chunk_count (new_Chunk K) = 0"
  "chunk_next (new_Chunk K) = None" "chunk_elements (new_Chunk K) = []"
  by (simp_all add: chunk_ok_def new_Chunk_def chunk_elements_def map_filter_def)

lemma EmplaceBack_choose:
  assumes "choose_append K v = Inr v2" "append_chunk v2 = Some a" "a < arena_size v2"
    "chunk_count (arena_chunks v2 a) < length (chunk_data (arena_chunks v2 a))"
  shows "EmplaceBack K x v = Inr (push_at a x v2)"
  using assms by (simp add: EmplaceBack_def AppendSlot_def slot_Init_def push_at_def)

lemma push_at_shape:
  assumes "shape K v pre ap post" "chunk_count (arena_chunks v ap) < K"
  shows "shape K (push_at ap x v) pre ap post"
    and "elements_of (push_at ap x v) (pre @ ap # post) = elements_of v (pre @ ap # post) @ [x]"
proof -
  let ?v = "push_at ap x v"
  have d: "distinct (pre @ ap # post)" and ok: "\<forall>a \<in> set (pre @ ap # post). chunk_ok K (arena_chunks v a)"
    and ch: "chain v (first_chunk v) (pre @ ap # post) None"
    and app: "append_chunk v = Some ap"
    and full: "\<forall>a \<in> set pre. chunk_count (arena_chunks v a) = K"
    and empty: "\<forall>a \<in> set post. chunk_count (arena_chunks v a) = 0"
    using assms(1) by (simp_all add: shape_def)
  have other: "a \<noteq> ap \<Longrightarrow> arena_chunks ?v a = arena_chunks v a" for a
    by (simp add: push_at_def)
  have okap: "chunk_ok K (arena_chunks v ap)" using ok by simp
  have at: "arena_chunks ?v ap = (arena_chunks v ap)\<lparr>chunk_count := Suc (chunk_count (arena_chunks v ap)),
          chunk_data := (chunk_data (arena_chunks v ap))[chunk_count (arena_chunks v ap) := Some x]\<rparr>"
    by (simp add: push_at_def)
  have ch': "chain ?v (first_chunk ?v) (pre @ ap # post) None"
    using chain_frame [OF ch, of "?v"] by (simp add: push_at_def)
  have ok': "\<forall>a \<in> set (pre @ ap # post). chunk_ok K (arena_chunks ?v a)"
  proof
    fix a assume "a \<in> set (pre @ ap # post)"
    then show "chunk_ok K (arena_chunks ?v a)"
      using ok other [of a] at chunk_elements_snoc(1) [OF okap assms(2)] by (cases "a = ap") auto
  qed
  have nin: "ap \<notin> set pre" "ap \<notin> set post" using d by auto
  show "shape K ?v pre ap post"
    unfolding shape_def
  proof (intro conjI)
    show "chain ?v (first_chunk ?v) (pre @ ap # post) None" by (rule ch')
    show "distinct (pre @ ap # post)" by (rule d)
    show "\<forall>a \<in> set (pre @ ap # post). chunk_ok K (arena_chunks ?v a)" by (rule ok')
    show "append_chunk ?v = Some ap" using app by (simp add: push_at_def)
    show "\<forall>a \<in> set pre. chunk_count (arena_chunks ?v a) = K"
      using full nin other by metis
    show "\<forall>a \<in> set post. chunk_count (arena_chunks ?v a) = 0"
      using empty nin other by metis
  qed
  have e1: "elements_of ?v pre = elements_of v pre"
    using nin other by (intro elements_of_frame) metis
  have e2: "elements_of ?v post = []" "elements_of v post = []"
    using empty nin other by (metis elements_of_empty)+
  have e3: "chunk_elements (arena_chunks ?v ap) = chunk_elements (arena_chunks v ap) @ [x]"
    using at chunk_elements_snoc(2) [OF okap assms(2)] by simp
  show "elements_of ?v (pre @ ap # post) = elements_of v (pre @ ap # post) @ [x]"
    by (simp add: elements_of_append elements_of_Cons e1 e2 e3)
qed

lemma chunk_ok_next [simp]: "chunk_ok K (c\<lparr>chunk_next := p\<rparr>) = chunk_ok K c"
  by (simp add: chunk_ok_def)

lemma chunk_elements_next [simp]: "chunk_elements (c\<lparr>chunk_next := p\<rparr>) = chunk_elements c"
  by (simp add: chunk_elements_def)

lemma choose_append_null:
  assumes "0 < K" "first_chunk v = None" "append_chunk v = None"
  shows "\<exists>v2 ap. choose_append K v = Inr v2 \<and> shape K v2 [] ap [] \<and>
           chunk_count (arena_chunks v2 ap) < K \<and> elements_of v2 [ap] = []"
proof -
  let ?b = "arena_size v"
  let ?v2 = "v\<lparr>arena_chunks := (arena_chunks v)(?b := new_Chunk K), arena_size := Suc ?b,
               first_chunk := Some ?b, append_chunk := Some ?b\<rparr>"
  have 1: "choose_append K v = Inr ?v2"
    using assms by (simp add: choose_append_def Arena_New_def)
  have 2: "shape K ?v2 [] ?b []"
    by (simp add: shape_def new_Chunk_ok)
  have 3: "chunk_count (arena_chunks ?v2 ?b) < K"
    using assms(1) by (simp add: new_Chunk_ok)
  have 4: "elements_of ?v2 [?b] = []"
    by (simp add: elements_of_def new_Chunk_ok)
  show ?thesis using 1 2 3 4 by blast
qed

lemma choose_append_room:
  assumes "shape K v pre ap post" "chunk_count (arena_chunks v ap) \<noteq> K"
  shows "choose_append K v = Inr v" "chunk_count (arena_chunks v ap) < K"
proof -
  have "ap < arena_size v"
    using assms(1) chain_allocated [of v "first_chunk v" "pre @ ap # post" None ap]
    by (simp add: shape_def)
  then show "choose_append K v = Inr v"
    using assms by (simp add: choose_append_def shape_def)
  have "chunk_ok K (arena_chunks v ap)" using assms(1) by (simp add: shape_def)
  then show "chunk_count (arena_chunks v ap) < K"
    using assms(2) by (simp add: chunk_ok_def)
qed

lemma choose_append_next:
  assumes "0 < K" "shape K v pre ap (b # post)" "chunk_count (arena_chunks v ap) = K"
  shows "choose_append K v = Inr (v\<lparr>append_chunk := Some b\<rparr>)"
    and "shape K (v\<lparr>append_chunk := Some b\<rparr>) (pre @ [ap]) b post"
    and "chunk_count (arena_chunks (v\<lparr>append_chunk := Some b\<rparr>) b) < K"
    and "elements_of (v\<lparr>append_chunk := Some b\<rparr>) ((pre @ [ap]) @ b # post)
           = elements_of v (pre @ ap # b # post)"
proof -
  have ch: "chain v (first_chunk v) (pre @ ap # b # post) None"
    using assms(2) by (simp add: shape_def)
  then have nx: "ap < arena_size v" "chunk_next (arena_chunks v ap) = Some b"
    by (auto simp: chain_append)
  show "choose_append K v = Inr (v\<lparr>append_chunk := Some b\<rparr>)"
    using assms nx by (simp add: choose_append_def shape_def)
  have ch': "chain (v\<lparr>append_chunk := Some b\<rparr>) (first_chunk v) (pre @ ap # b # post) None"
    using chain_frame [OF ch, of "v\<lparr>append_chunk := Some b\<rparr>"] by simp
  show "shape K (v\<lparr>append_chunk := Some b\<rparr>) (pre @ [ap]) b post"
    using assms ch' by (auto simp: shape_def)
  show "chunk_count (arena_chunks (v\<lparr>append_chunk := Some b\<rparr>) b) < K"
    using assms by (simp add: shape_def)
  show "elements_of (v\<lparr>append_chunk := Some b\<rparr>) ((pre @ [ap]) @ b # post)
           = elements_of v (pre @ ap # b # post)"
    by (simp add: elements_of_def)
qed

lemma choose_append_new:
  assumes "0 < K" "shape K v pre ap []" "chunk_count (arena_chunks v ap) = K"
  shows "\<exists>v2 b. choose_append K v = Inr v2 \<and> shape K v2 (pre @ [ap]) b [] \<and>
           chunk_count (arena_chunks v2 b) < K \<and>
           elements_of v2 ((pre @ [ap]) @ [b]) = elements_of v (pre @ [ap])"
proof -
  let ?b = "arena_size v"
  let ?v2 = "v\<lparr>arena_chunks := (arena_chunks v)
                 (?b := new_Chunk K, ap := (arena_chunks v ap)\<lparr>chunk_next := Some ?b\<rparr>),
               arena_size := Suc ?b, append_chunk := Some ?b\<rparr>"
  have ch: "chain v (first_chunk v) (pre @ [ap]) None"
    and d: "distinct (pre @ [ap])"
    and ok: "\<forall>a \<in> set (pre @ [ap]). chunk_ok K (arena_chunks v a)"
    and full: "\<forall>a \<in> set pre. chunk_count (arena_chunks v a) = K"
    using assms(2) by (simp_all add: shape_def)
  have alloc: "a \<in> set (pre @ [ap]) \<Longrightarrow> a < ?b" for a
    using chain_allocated [OF ch] by blast
  then have apb: "ap < ?b" "ap \<noteq> ?b" by auto
  have nx: "chunk_next (arena_chunks v ap) = None" and chpre: "chain v (first_chunk v) pre (Some ap)"
    using ch by (auto simp: chain_append)
  have app: "append_chunk v = Some ap" using assms(2) by (simp add: shape_def)
  have 1: "choose_append K v = Inr ?v2"
    using assms(3) apb nx app by (simp add: choose_append_def Arena_New_def fun_upd_twist)
  have pre_other: "a \<in> set pre \<Longrightarrow> arena_chunks ?v2 a = arena_chunks v a" for a
    using d alloc [of a] by auto
  have chpre': "chain ?v2 (first_chunk ?v2) pre (Some ap)"
    using chain_frame [OF chpre, of ?v2] pre_other by simp
  have ch2: "chain ?v2 (first_chunk ?v2) ((pre @ [ap]) @ [?b]) None"
    using chpre' apb by (simp add: chain_append new_Chunk_ok)
  have d2: "distinct ((pre @ [ap]) @ [?b])"
    using d alloc by fastforce
  have okb: "chunk_ok K (arena_chunks ?v2 ?b)"
    using apb by (simp add: new_Chunk_ok)
  have okap: "chunk_ok K (arena_chunks ?v2 ap)"
    using ok by simp
  have ok2: "\<forall>a \<in> set ((pre @ [ap]) @ [?b]). chunk_ok K (arena_chunks ?v2 a)"
    using ok okb okap pre_other by auto
  have full2: "\<forall>a \<in> set (pre @ [ap]). chunk_count (arena_chunks ?v2 a) = K"
    using full pre_other assms(3) by auto
  have 2: "shape K ?v2 (pre @ [ap]) ?b []"
    unfolding shape_def using ch2 d2 ok2 full2 by simp
  have 3: "chunk_count (arena_chunks ?v2 ?b) < K"
    using assms(1) apb by (simp add: new_Chunk_ok)
  have e1: "elements_of ?v2 pre = elements_of v pre"
    using pre_other by (intro elements_of_frame) simp
  have 4: "elements_of ?v2 ((pre @ [ap]) @ [?b]) = elements_of v (pre @ [ap])"
    using apb e1 by (simp add: elements_of_append elements_of_Cons new_Chunk_ok)
       (simp add: elements_of_def)
  show ?thesis using 1 2 3 4 by blast
qed

lemma choose_append_invariant:
  assumes "0 < K" "invariant K v as"
  shows "\<exists>v2 pre ap post. choose_append K v = Inr v2 \<and> shape K v2 pre ap post \<and>
           chunk_count (arena_chunks v2 ap) < K \<and>
           elements_of v2 (pre @ ap # post) = elements_of v as"
proof (cases "append_chunk v")
  case None
  then have "first_chunk v = None" "as = []"
    using assms(2) by (auto simp: invariant_def shape_def)
  then show ?thesis
    using choose_append_null [OF assms(1) _ None] by (fastforce simp: elements_of_def)
next
  case (Some ap')
  then obtain pre ap post where as: "as = pre @ ap # post" and sh: "shape K v pre ap post"
    using assms(2) by (auto simp: invariant_def)
  show ?thesis
  proof (cases "chunk_count (arena_chunks v ap) = K")
    case False
    then show ?thesis
      using choose_append_room [OF sh] as sh by blast
  next
    case True
    show ?thesis
    proof (cases post)
      case Nil
      then show ?thesis
        using choose_append_new [OF assms(1) _ True, of pre] sh as by fastforce
    next
      case (Cons b post')
      then show ?thesis
        using choose_append_next [OF assms(1) _ True, of pre b post'] sh as by blast
    qed
  qed
qed

lemma EmplaceBack_invariant:
  assumes "0 < K" "invariant K v as"
  shows "\<exists>v' as'. EmplaceBack K x v = Inr v' \<and> invariant K v' as' \<and>
           elements_of v' as' = elements_of v as @ [x]"
proof -
  obtain v2 pre ap post where c: "choose_append K v = Inr v2" and sh: "shape K v2 pre ap post"
    and room: "chunk_count (arena_chunks v2 ap) < K"
    and el: "elements_of v2 (pre @ ap # post) = elements_of v as"
    using choose_append_invariant [OF assms] by blast
  have ap: "append_chunk v2 = Some ap" "ap < arena_size v2"
    "chunk_ok K (arena_chunks v2 ap)"
    using sh chain_allocated [of v2 "first_chunk v2" "pre @ ap # post" None ap]
    by (simp_all add: shape_def)
  then have "chunk_count (arena_chunks v2 ap) < length (chunk_data (arena_chunks v2 ap))"
    using room by (simp add: chunk_ok_def)
  then have 1: "EmplaceBack K x v = Inr (push_at ap x v2)"
    using EmplaceBack_choose [OF c ap(1) ap(2)] by simp
  have 2: "invariant K (push_at ap x v2) (pre @ ap # post)"
    using push_at_shape(1) [OF sh room] by (auto simp: invariant_def)
  have 3: "elements_of (push_at ap x v2) (pre @ ap # post) = elements_of v as @ [x]"
    using push_at_shape(2) [OF sh room] el by simp
  show ?thesis using 1 2 3 by blast
qed

subsection \<open>PopBack keeps the invariant and removes the last element\<close>

lemma chunk_take_last:
  assumes "chunk_ok K c" "chunk_count c \<noteq> 0"
  shows "\<exists>y. chunk_count c - 1 < length (chunk_data c) \<and>
           chunk_data c ! (chunk_count c - 1) = Some y \<and>
           chunk_ok K (c\<lparr>chunk_count := chunk_count c - 1,
                          chunk_data := (chunk_data c)[chunk_count c - 1 := None]\<rparr>) \<and>
           chunk_elements c =
             chunk_elements (c\<lparr>chunk_count := chunk_count c - 1,
                                chunk_data := (chunk_data c)[chunk_count c - 1 := None]\<rparr>) @ [y]"
proof -
  obtain n where n: "chunk_count c = Suc n"
    using assms(2) by (cases "chunk_count c") auto
  have len: "n < length (chunk_data c)" and none: "None \<notin> set (take (Suc n) (chunk_data c))"
    using assms(1) n by (simp_all add: chunk_ok_def)
  have tk: "take (Suc n) (chunk_data c) = take n (chunk_data c) @ [chunk_data c ! n]"
    using len by (simp add: take_Suc_conv_app_nth)
  then obtain y where y: "chunk_data c ! n = Some y"
    using none by (cases "chunk_data c ! n") auto
  have ok: "chunk_ok K (c\<lparr>chunk_count := n, chunk_data := (chunk_data c)[n := None]\<rparr>)"
    using assms(1) n none tk by (simp add: chunk_ok_def)
  have el: "chunk_elements c
      = chunk_elements (c\<lparr>chunk_count := n, chunk_data := (chunk_data c)[n := None]\<rparr>) @ [y]"
    using tk y n by (simp add: chunk_elements_def map_filter_def)
  show ?thesis using n len y ok el by simp
qed

lemma take_last_shape:
  assumes "shape K v pre ap post" "chunk_count (arena_chunks v ap) \<noteq> 0"
  shows "\<exists>y. take_last v = Inr (y, pop_at ap v) \<and> shape K (pop_at ap v) pre ap post \<and>
           elements_of v (pre @ ap # post) = elements_of (pop_at ap v) (pre @ ap # post) @ [y]"
proof -
  let ?v = "pop_at ap v"
  let ?c = "arena_chunks v ap"
  have d: "distinct (pre @ ap # post)" and ok: "\<forall>a \<in> set (pre @ ap # post). chunk_ok K (arena_chunks v a)"
    and ch: "chain v (first_chunk v) (pre @ ap # post) None"
    and app: "append_chunk v = Some ap"
    and full: "\<forall>a \<in> set pre. chunk_count (arena_chunks v a) = K"
    and empty: "\<forall>a \<in> set post. chunk_count (arena_chunks v a) = 0"
    using assms(1) by (simp_all add: shape_def)
  have alloc: "ap < arena_size v"
    using chain_allocated [OF ch, of ap] by simp
  have okap: "chunk_ok K ?c" using ok by simp
  obtain y where y: "chunk_count ?c - 1 < length (chunk_data ?c)"
      "chunk_data ?c ! (chunk_count ?c - 1) = Some y"
      "chunk_ok K (?c\<lparr>chunk_count := chunk_count ?c - 1,
                          chunk_data := (chunk_data ?c)[chunk_count ?c - 1 := None]\<rparr>)"
      "chunk_elements ?c =
             chunk_elements (?c\<lparr>chunk_count := chunk_count ?c - 1,
                                chunk_data := (chunk_data ?c)[chunk_count ?c - 1 := None]\<rparr>) @ [y]"
    using chunk_take_last [OF okap assms(2)] by blast
  have 1: "take_last v = Inr (y, ?v)"
    using app alloc assms(2) y(1,2) by (simp add: take_last_def pop_at_def Let_def)
  have other: "a \<noteq> ap \<Longrightarrow> arena_chunks ?v a = arena_chunks v a" for a
    by (simp add: pop_at_def)
  have at: "arena_chunks ?v ap = ?c\<lparr>chunk_count := chunk_count ?c - 1,
                          chunk_data := (chunk_data ?c)[chunk_count ?c - 1 := None]\<rparr>"
    by (simp add: pop_at_def)
  have ch': "chain ?v (first_chunk ?v) (pre @ ap # post) None"
    using chain_frame [OF ch, of "?v"] by (simp add: pop_at_def)
  have ok': "\<forall>a \<in> set (pre @ ap # post). chunk_ok K (arena_chunks ?v a)"
  proof
    fix a assume "a \<in> set (pre @ ap # post)"
    then show "chunk_ok K (arena_chunks ?v a)"
      using ok other [of a] at y(3) by (cases "a = ap") auto
  qed
  have nin: "ap \<notin> set pre" "ap \<notin> set post" using d by auto
  have 2: "shape K ?v pre ap post"
    unfolding shape_def
  proof (intro conjI)
    show "chain ?v (first_chunk ?v) (pre @ ap # post) None" by (rule ch')
    show "distinct (pre @ ap # post)" by (rule d)
    show "\<forall>a \<in> set (pre @ ap # post). chunk_ok K (arena_chunks ?v a)" by (rule ok')
    show "append_chunk ?v = Some ap" using app by (simp add: pop_at_def)
    show "\<forall>a \<in> set pre. chunk_count (arena_chunks ?v a) = K"
      using full nin other by metis
    show "\<forall>a \<in> set post. chunk_count (arena_chunks ?v a) = 0"
      using empty nin other by metis
  qed
  have e1: "elements_of ?v pre = elements_of v pre"
    using nin other by (intro elements_of_frame) metis
  have e2: "elements_of ?v post = []" "elements_of v post = []"
    using empty nin other by (metis elements_of_empty)+
  have 3: "elements_of v (pre @ ap # post) = elements_of ?v (pre @ ap # post) @ [y]"
    using y(4) at by (simp add: elements_of_append elements_of_Cons e1 e2)
  show ?thesis using 1 2 3 by blast
qed

lemma find_previous_chain:
  "chain v p (xs @ [c]) (Some ap) \<Longrightarrow> append_chunk v = Some ap \<Longrightarrow> ap \<notin> set (xs @ [c]) \<Longrightarrow>
   find_previous v p = Some (Inr c)"
proof (induction xs arbitrary: p)
  case Nil
  then show ?case by (subst find_previous.simps) simp
next
  case (Cons a xs)
  then have rest: "chain v (chunk_next (arena_chunks v a)) (xs @ [c]) (Some ap)"
    and a: "p = Some a" "a < arena_size v"
    by simp_all
  have "chunk_next (arena_chunks v a) \<noteq> Some ap"
    using rest Cons.prems(3) by (cases xs) auto
  then have "find_previous v p = find_previous v (chunk_next (arena_chunks v a))"
    using a Cons.prems(2) by (subst find_previous.simps) simp
  then show ?case
    using Cons.IH [OF rest Cons.prems(2)] Cons.prems(3) by simp
qed

lemma chunk_elements_empty: "chunk_count c = 0 \<Longrightarrow> chunk_elements c = []"
  by (simp add: chunk_elements_def map_filter_def)

lemma PopBack_back:
  assumes "0 < K" "shape K v pre ap post" "chunk_count (arena_chunks v ap) = 0"
    "pre = pre' @ [c]"
  shows "PopBack v = Some (take_last (v\<lparr>append_chunk := Some c\<rparr>))"
    and "shape K (v\<lparr>append_chunk := Some c\<rparr>) pre' c (ap # post)"
    and "chunk_count (arena_chunks (v\<lparr>append_chunk := Some c\<rparr>) c) \<noteq> 0"
proof -
  have d: "distinct (pre' @ c # ap # post)"
    and ch: "chain v (first_chunk v) (pre' @ c # ap # post) None"
    and app: "append_chunk v = Some ap"
    using assms(2,4) by (simp_all add: shape_def)
  have alloc: "ap < arena_size v"
    using chain_allocated [OF ch, of ap] by simp
  have chp: "chain v (first_chunk v) (pre' @ [c]) (Some ap)"
    using ch by (auto simp: chain_append)
  have fp: "find_previous v (first_chunk v) = Some (Inr c)"
    using find_previous_chain [OF chp app] d by auto
  have "first_chunk v \<noteq> Some ap"
    using chp d by (cases pre') auto
  then show "PopBack v = Some (take_last (v\<lparr>append_chunk := Some c\<rparr>))"
    using app alloc assms(3) fp by (simp add: PopBack_def)
  have ch': "chain (v\<lparr>append_chunk := Some c\<rparr>) (first_chunk v) (pre' @ c # ap # post) None"
    using chain_frame [OF ch, of "v\<lparr>append_chunk := Some c\<rparr>"] by simp
  show "shape K (v\<lparr>append_chunk := Some c\<rparr>) pre' c (ap # post)"
    using assms(2,3,4) ch' by (auto simp: shape_def)
  show "chunk_count (arena_chunks (v\<lparr>append_chunk := Some c\<rparr>) c) \<noteq> 0"
    using assms(1,2,4) by (simp add: shape_def)
qed

lemma PopBack_invariant:
  assumes "0 < K" "invariant K v as"
  shows "elements_of v as \<noteq> [] \<Longrightarrow>
           \<exists>y v' as'. PopBack v = Some (Inr (y, v')) \<and> invariant K v' as' \<and>
             elements_of v as = elements_of v' as' @ [y]"
    and "elements_of v as = [] \<Longrightarrow> PopBack v = Some (Inl AssertionFailed)"
proof -
  have "(elements_of v as \<noteq> [] \<longrightarrow>
           (\<exists>y v' as'. PopBack v = Some (Inr (y, v')) \<and> invariant K v' as' \<and>
             elements_of v as = elements_of v' as' @ [y])) \<and>
        (elements_of v as = [] \<longrightarrow> PopBack v = Some (Inl AssertionFailed))"
  proof (cases "append_chunk v")
    case None
    then have "as = []" using assms(2) by (auto simp: invariant_def shape_def)
    then show ?thesis using None by (simp add: PopBack_def elements_of_def)
  next
    case (Some ap')
    then obtain pre ap post where as: "as = pre @ ap # post" and sh: "shape K v pre ap post"
      using assms(2) by (auto simp: invariant_def)
    have app: "append_chunk v = Some ap" and ch: "chain v (first_chunk v) (pre @ ap # post) None"
      and d: "distinct (pre @ ap # post)"
      and ok: "chunk_ok K (arena_chunks v ap)"
      and empty: "\<forall>a \<in> set post. chunk_count (arena_chunks v a) = 0"
      and full: "\<forall>a \<in> set pre. chunk_count (arena_chunks v a) = K"
      and oks: "\<forall>a \<in> set pre. chunk_ok K (arena_chunks v a)"
      using sh by (simp_all add: shape_def)
    have alloc: "ap < arena_size v"
      using chain_allocated [OF ch, of ap] by simp
    show ?thesis
    proof (cases "chunk_count (arena_chunks v ap) = 0")
      case False
      have pb: "PopBack v = Some (take_last v)"
        using app alloc False by (simp add: PopBack_def)
      obtain y where y: "take_last v = Inr (y, pop_at ap v)" "shape K (pop_at ap v) pre ap post"
        "elements_of v (pre @ ap # post) = elements_of (pop_at ap v) (pre @ ap # post) @ [y]"
        using take_last_shape [OF sh False] by blast
      have "invariant K (pop_at ap v) (pre @ ap # post)"
        using y(2) by (auto simp: invariant_def)
      then show ?thesis
        using pb y as by auto
    next
      case True
      show ?thesis
      proof (cases pre rule: rev_cases)
        case Nil
        then have "first_chunk v = Some ap" using ch by simp
        then have pb: "PopBack v = Some (Inl AssertionFailed)"
          using app alloc True by (simp add: PopBack_def)
        have "elements_of v post = []"
          using empty by (metis elements_of_empty)
        then have "elements_of v as = []"
          using as Nil True by (simp add: elements_of_Cons chunk_elements_empty)
        then show ?thesis using pb by simp
      next
        case (snoc pre' c)
        let ?v1 = "v\<lparr>append_chunk := Some c\<rparr>"
        have pb: "PopBack v = Some (take_last ?v1)"
          and sh1: "shape K ?v1 pre' c (ap # post)"
          and ne: "chunk_count (arena_chunks ?v1 c) \<noteq> 0"
          using PopBack_back [OF assms(1) sh True snoc] by blast+
        obtain y where y: "take_last ?v1 = Inr (y, pop_at c ?v1)"
          "shape K (pop_at c ?v1) pre' c (ap # post)"
          "elements_of ?v1 (pre' @ c # ap # post)
             = elements_of (pop_at c ?v1) (pre' @ c # ap # post) @ [y]"
          using take_last_shape [OF sh1 ne] by blast
        have inv: "invariant K (pop_at c ?v1) (pre' @ c # ap # post)"
          using y(2) by (auto simp: invariant_def)
        have "elements_of ?v1 (pre' @ c # ap # post) = elements_of v as"
          using as snoc by (simp add: elements_of_def)
        then have "elements_of v as = elements_of (pop_at c ?v1) (pre' @ c # ap # post) @ [y]"
          using y(3) by simp
        then show ?thesis
          using pb y(1) inv by auto
      qed
    qed
  qed
  then show "elements_of v as \<noteq> [] \<Longrightarrow>
           \<exists>y v' as'. PopBack v = Some (Inr (y, v')) \<and> invariant K v' as' \<and>
             elements_of v as = elements_of v' as' @ [y]"
    and "elements_of v as = [] \<Longrightarrow> PopBack v = Some (Inl AssertionFailed)"
    by blast+
qed

subsection \<open>Clear, and the invariant of every vector a program can build\<close>

lemma destroy_chunk_simps [simp]:
  "chunk_next (destroy_chunk c) = chunk_next c" "chunk_count (destroy_chunk c) = 0"
  by (simp_all add: destroy_chunk_def)

lemma destroy_chunk_ok: "chunk_ok K c \<Longrightarrow> chunk_ok K (destroy_chunk c)"
  by (auto simp: chunk_ok_def destroy_chunk_def)

lemma Clear_loop_chain:
  "chain v p (xs @ ys) None \<Longrightarrow> distinct (xs @ ys) \<Longrightarrow>
   (\<And>a. a \<in> set xs \<Longrightarrow> chunk_ok K (arena_chunks v a) \<and> chunk_count (arena_chunks v a) \<noteq> 0) \<Longrightarrow>
   ys = [] \<or> chunk_count (arena_chunks v (hd ys)) = 0 \<Longrightarrow>
   \<exists>v'. Clear_loop v p = Inr v' \<and> arena_size v' = arena_size v \<and>
     first_chunk v' = first_chunk v \<and> append_chunk v' = append_chunk v \<and>
     (\<forall>a. arena_chunks v' a =
        (if a \<in> set xs then destroy_chunk (arena_chunks v a) else arena_chunks v a))"
proof (induction xs arbitrary: v p)
  case Nil
  show ?case
  proof (cases ys)
    case Nil
    then show ?thesis using Nil.prems(1) by (subst Clear_loop.simps) simp
  next
    case (Cons b ys')
    then show ?thesis using Nil.prems(1,4) by (subst Clear_loop.simps) simp
  qed
next
  case (Cons a xs)
  let ?v1 = "v\<lparr>arena_chunks := (arena_chunks v)(a := destroy_chunk (arena_chunks v a))\<rparr>"
  have p: "p = Some a" "a < arena_size v"
    and rest: "chain v (chunk_next (arena_chunks v a)) (xs @ ys) None"
    using Cons.prems(1) by simp_all
  have a: "chunk_ok K (arena_chunks v a)" "chunk_count (arena_chunks v a) \<noteq> 0"
    using Cons.prems(3) [of a] by simp_all
  have nin: "a \<notin> set (xs @ ys)" and d: "distinct (xs @ ys)"
    using Cons.prems(2) by simp_all
  have step: "Clear_loop v p = Clear_loop ?v1 (chunk_next (arena_chunks v a))"
    using p a by (subst Clear_loop.simps) (simp add: chunk_ok_def)
  have other: "b \<noteq> a \<Longrightarrow> arena_chunks ?v1 b = arena_chunks v b" for b
    by simp
  have rest1: "chain ?v1 (chunk_next (arena_chunks v a)) (xs @ ys) None"
    using chain_frame [OF rest, of ?v1] nin by auto
  have xs1: "\<And>b. b \<in> set xs \<Longrightarrow>
      chunk_ok K (arena_chunks ?v1 b) \<and> chunk_count (arena_chunks ?v1 b) \<noteq> 0"
    using Cons.prems(3) nin by auto
  have ys1: "ys = [] \<or> chunk_count (arena_chunks ?v1 (hd ys)) = 0"
    using Cons.prems(4) nin by (cases ys) auto
  obtain v' where v': "Clear_loop ?v1 (chunk_next (arena_chunks v a)) = Inr v'"
    "arena_size v' = arena_size ?v1" "first_chunk v' = first_chunk ?v1"
    "append_chunk v' = append_chunk ?v1"
    "\<forall>b. arena_chunks v' b =
        (if b \<in> set xs then destroy_chunk (arena_chunks ?v1 b) else arena_chunks ?v1 b)"
    using Cons.IH [OF rest1 d xs1 ys1] by blast
  have "\<forall>b. arena_chunks v' b =
        (if b \<in> set (a # xs) then destroy_chunk (arena_chunks v b) else arena_chunks v b)"
    using v'(5) nin by auto
  then show ?case
    using step v'(1-4) by simp
qed

lemma Clear_invariant:
  assumes "0 < K" "invariant K v as"
  shows "\<exists>v'. Clear v = Inr v' \<and> invariant K v' as \<and> elements_of v' as = []"
proof (cases "append_chunk v")
  case None
  then have "as = []" "first_chunk v = None"
    using assms(2) by (auto simp: invariant_def shape_def)
  then show ?thesis
    using None by (subst Clear_def, subst Clear_loop.simps) (simp add: invariant_def elements_of_def)
next
  case (Some ap')
  then obtain pre ap post where as: "as = pre @ ap # post" and sh: "shape K v pre ap post"
    using assms(2) by (auto simp: invariant_def)
  have ch: "chain v (first_chunk v) as None" and d: "distinct as"
    and ok: "\<forall>a \<in> set as. chunk_ok K (arena_chunks v a)"
    and full: "\<forall>a \<in> set pre. chunk_count (arena_chunks v a) = K"
    and empty: "\<forall>a \<in> set post. chunk_count (arena_chunks v a) = 0"
    using sh as by (simp_all add: shape_def)
  define xs where "xs = (if chunk_count (arena_chunks v ap) = 0 then pre else pre @ [ap])"
  define ys where "ys = (if chunk_count (arena_chunks v ap) = 0 then ap # post else post)"
  have split: "as = xs @ ys" by (simp add: as xs_def ys_def)
  have xs: "\<And>a. a \<in> set xs \<Longrightarrow>
      chunk_ok K (arena_chunks v a) \<and> chunk_count (arena_chunks v a) \<noteq> 0"
    using ok full assms(1) as by (auto simp: xs_def split: if_splits)
  have ys: "ys = [] \<or> chunk_count (arena_chunks v (hd ys)) = 0"
    using empty by (cases post) (auto simp: ys_def)
  have ys0: "\<And>a. a \<in> set ys \<Longrightarrow> chunk_count (arena_chunks v a) = 0"
    using empty by (auto simp: ys_def split: if_splits)
  obtain v1 where v1: "Clear_loop v (first_chunk v) = Inr v1" "arena_size v1 = arena_size v"
    "first_chunk v1 = first_chunk v"
    "\<forall>a. arena_chunks v1 a =
        (if a \<in> set xs then destroy_chunk (arena_chunks v a) else arena_chunks v a)"
    using Clear_loop_chain [OF ch [unfolded split] d [unfolded split] xs ys] by blast
  let ?v' = "v1\<lparr>append_chunk := first_chunk v1\<rparr>"
  have 1: "Clear v = Inr ?v'"
    using v1(1) by (simp add: Clear_def)
  have ch': "chain ?v' (first_chunk v) as None"
    using chain_frame [OF ch, of ?v'] v1(2,4) by simp
  have zero: "\<And>a. a \<in> set as \<Longrightarrow> chunk_count (arena_chunks ?v' a) = 0"
    using v1(4) ys0 split by auto
  have ok': "\<forall>a \<in> set as. chunk_ok K (arena_chunks ?v' a)"
    using ok v1(4) destroy_chunk_ok by auto
  have "as \<noteq> []" using as by simp
  then obtain a0 rest where hd: "as = a0 # rest"
    by (cases as) auto
  have fst: "first_chunk v = Some a0"
    using ch hd by simp
  have "shape K ?v' [] a0 rest"
    unfolding shape_def using ch' d ok' zero fst v1(3) hd by auto
  then have 2: "invariant K ?v' as"
    unfolding invariant_def using hd by force
  have 3: "elements_of ?v' as = []"
    using zero by (rule elements_of_empty)
  show ?thesis using 1 2 3 by blast
qed

lemma reachable_invariant:
  assumes "0 < K" "reachable K v"
  shows "\<exists>as. invariant K v as"
  using assms(2)
proof (induction rule: reachable.induct)
  case (reachable_new m n)
  then show ?case by (auto simp: invariant_def new_ChunkedVector_def)
next
  case (reachable_EmplaceBack v x v')
  then show ?case using EmplaceBack_invariant [OF assms(1), of v _ x] by fastforce
next
  case (reachable_PopBack v x v')
  then obtain as where as: "invariant K v as" by blast
  show ?case
  proof (cases "elements_of v as = []")
    case True
    then show ?thesis
      using PopBack_invariant(2) [OF assms(1) as] reachable_PopBack.hyps(2) by simp
  next
    case False
    then show ?thesis
      using PopBack_invariant(1) [OF assms(1) as] reachable_PopBack.hyps(2) by fastforce
  qed
next
  case (reachable_Clear v v')
  then show ?case using Clear_invariant [OF assms(1), of v] by fastforce
next
  case (reachable_moved_from v)
  then show ?case by (auto simp: invariant_def moved_from_def)
qed


lemma chunk_elements_map:
  assumes "chunk_ok K c"
  shows "chunk_elements c = map the (take (chunk_count c) (chunk_data c))"
proof -
  have "None \<notin> set xs \<Longrightarrow> List.map_filter (\<lambda>s. s) xs = map the xs" for xs :: "'a option list"
  proof (induction xs)
    case Nil
    then show ?case by simp
  next
    case (Cons s xs)
    then show ?case by (cases s) auto
  qed
  then show ?thesis
    using assms by (simp add: chunk_ok_def chunk_elements_def)
qed

lemma chunk_elements_drop:
  assumes "chunk_ok K c" "n < chunk_count c"
  shows "\<exists>x. chunk_data c ! n = Some x \<and> n < length (chunk_data c) \<and>
           drop n (chunk_elements c) = x # drop (Suc n) (chunk_elements c)"
proof -
  have len: "n < length (chunk_data c)" and none: "None \<notin> set (take (chunk_count c) (chunk_data c))"
    using assms by (simp_all add: chunk_ok_def)
  have "take (chunk_count c) (chunk_data c) ! n \<in> set (take (chunk_count c) (chunk_data c))"
    using assms len by (intro nth_mem) simp
  then obtain x where x: "chunk_data c ! n = Some x"
    using none assms(2) by (cases "chunk_data c ! n") auto
  have le: "n < length (chunk_elements c)"
    using assms len by (simp add: chunk_elements_map [OF assms(1)] chunk_ok_def)
  have "chunk_elements c ! n = x"
    using assms len x by (simp add: chunk_elements_map [OF assms(1)])
  then have "drop n (chunk_elements c) = x # drop (Suc n) (chunk_elements c)"
    using Cons_nth_drop_Suc [OF le] by simp
  then show ?thesis using x len by blast
qed

lemma collect_chain:
  "chain v p cs None \<Longrightarrow> (\<And>a. a \<in> set cs \<Longrightarrow> chunk_ok K (arena_chunks v a)) \<Longrightarrow>
   \<exists>it. skip_chunks v p 0 = Some (Inr it) \<and>
     (\<forall>acc. collect v it acc = Some (Inr (acc @ elements_of v cs)))"
proof (induction cs arbitrary: p)
  case Nil
  then show ?case
    by (subst skip_chunks.simps, subst collect.simps) (simp add: end_iterator_def elements_of_def)
next
  case (Cons c cs)
  have p: "p = Some c" "c < arena_size v"
    and rest: "chain v (chunk_next (arena_chunks v c)) cs None"
    using Cons.prems(1) by simp_all
  have ok: "chunk_ok K (arena_chunks v c)" using Cons.prems(2) by simp
  obtain it where it: "skip_chunks v (chunk_next (arena_chunks v c)) 0 = Some (Inr it)"
    "\<And>acc. collect v it acc = Some (Inr (acc @ elements_of v cs))"
    using Cons.IH [OF rest] Cons.prems(2) by auto
  let ?n = "chunk_count (arena_chunks v c)"
  have inside: "n < ?n \<Longrightarrow>
      collect v (Some c, n) acc
        = Some (Inr (acc @ drop n (chunk_elements (arena_chunks v c)) @ elements_of v cs))"
    for n acc
  proof (induction "?n - n" arbitrary: n acc)
    case 0
    then show ?case by simp
  next
    case (Suc d)
    obtain x where x: "chunk_data (arena_chunks v c) ! n = Some x"
      "n < length (chunk_data (arena_chunks v c))"
      "drop n (chunk_elements (arena_chunks v c))
         = x # drop (Suc n) (chunk_elements (arena_chunks v c))"
      using chunk_elements_drop [OF ok Suc.prems] by blast
    have de: "dereference v (Some c, n) = Inr x"
      using x p by (simp add: dereference_def)
    show ?case
    proof (cases "Suc n = ?n")
      case True
      have inc: "increment v (Some c, n) = Some (Inr it)"
        using True p it(1) by (simp add: increment_def) (subst skip_chunks.simps, simp)
      have "drop (Suc n) (chunk_elements (arena_chunks v c)) = []"
        using True by (simp add: chunk_elements_length [OF ok])
      then show ?thesis
        using de inc it(2) x(3)
        by (subst collect.simps) (simp add: end_iterator_def)
    next
      case False
      then have lt: "Suc n < ?n" using Suc.prems by simp
      have inc: "increment v (Some c, n) = Some (Inr (Some c, Suc n))"
        using False p by (simp add: increment_def) (subst skip_chunks.simps, simp)
      have "d = ?n - Suc n" using Suc.hyps(2) by simp
      then have "collect v (Some c, Suc n) (acc @ [x]) = Some (Inr ((acc @ [x]) @
          drop (Suc n) (chunk_elements (arena_chunks v c)) @ elements_of v cs))"
        using Suc.hyps(1) lt by blast
      then show ?thesis
        using de inc x(3)
        by (subst collect.simps) (simp add: end_iterator_def)
    qed
  qed
  show ?case
  proof (cases "?n = 0")
    case True
    then have "skip_chunks v p 0 = Some (Inr it)"
      using p it(1) by (subst skip_chunks.simps) simp
    moreover have "elements_of v (c # cs) = elements_of v cs"
      using True by (simp add: elements_of_Cons chunk_elements_empty)
    ultimately show ?thesis using it(2) by simp
  next
    case False
    then have "skip_chunks v p 0 = Some (Inr (Some c, 0))"
      using p by (subst skip_chunks.simps) simp
    moreover have "\<forall>acc. collect v (Some c, 0) acc = Some (Inr (acc @ elements_of v (c # cs)))"
      using inside [of 0] False by (simp add: elements_of_Cons)
    ultimately show ?thesis by blast
  qed
qed

lemma invariant_iterate:
  assumes "0 < K" "invariant K v as"
  shows "iterate v = Some (Inr (elements v))"
proof -
  have ch: "chain v (first_chunk v) as None" and ok: "\<And>a. a \<in> set as \<Longrightarrow> chunk_ok K (arena_chunks v a)"
    using invariant_chain [OF assms(2)] by auto
  have el: "elements v = elements_of v as"
    by (rule invariant_elements [OF assms(2)])
  obtain it where it: "skip_chunks v (first_chunk v) 0 = Some (Inr it)"
    "\<And>acc. collect v it acc = Some (Inr (acc @ elements_of v as))"
    using collect_chain [OF ch ok] by blast
  show ?thesis
  proof (cases as)
    case Nil
    then have "first_chunk v = None" using ch by simp
    then show ?thesis
      using el Nil by (subst iterate_def, subst collect.simps)
        (simp add: begin_iterator_def end_iterator_def elements_of_def)
  next
    case (Cons c cs)
    then have c: "first_chunk v = Some c" "c < arena_size v" using ch by simp_all
    show ?thesis
    proof (cases "chunk_count (arena_chunks v c) = 0")
      case False
      then have "it = (Some c, 0)"
        using it(1) c by (subst (asm) skip_chunks.simps) simp
      then show ?thesis
        using it(2) [of "[]"] c False el by (simp add: iterate_def begin_iterator_def)
    next
      case True
      obtain pre ap post where sh: "as = pre @ ap # post" "shape K v pre ap post"
        using assms(2) Cons by (auto simp: invariant_def)
      have "pre = []"
      proof (rule ccontr)
        assume "pre \<noteq> []"
        then have "c \<in> set pre" using sh(1) Cons by (cases pre) auto
        then have "chunk_count (arena_chunks v c) = K" using sh(2) by (simp add: shape_def)
        then show False using True assms(1) by simp
      qed
      then have "\<And>a. a \<in> set as \<Longrightarrow> chunk_count (arena_chunks v a) = 0"
        using sh True Cons by (auto simp: shape_def)
      then have "elements_of v as = []" by (rule elements_of_empty)
      then show ?thesis
        using c True el
        by (subst iterate_def, subst collect.simps)
           (simp add: begin_iterator_def)
    qed
  qed
qed

lemma reachable_pushed: "reachable K v \<Longrightarrow> reachable K (pushed K x v)"
  by (auto simp: pushed_def split: sum.splits intro: reachable.intros)

lemma reachable_popped: "reachable K v \<Longrightarrow> reachable K (popped v)"
  by (auto simp: popped_def split: sum.splits option.splits intro: reachable.intros)

lemma reachable_example_vector: "reachable 1 example_vector"
  unfolding example_vector_def
  by (intro reachable_popped reachable_pushed reachable_new)

lemma reachable_example_empty: "reachable 1 example_empty"
  unfolding example_empty_def
  by (intro reachable_popped reachable_pushed reachable_new)

lemmas cv_eval = pushed_def popped_def EmplaceBack_def AppendSlot_def choose_append_def
  Arena_New_def slot_Init_def new_Chunk_def new_ChunkedVector_def PopBack_def take_last_def
  elements_def elements_of_def chunk_elements_def map_filter_def Let_def

lemma elements_example_vector: "elements example_vector = [7]"
  by (simp add: example_vector_def cv_eval numeral_2_eq_2)

lemma elements_example_empty: "elements example_empty = []"
  by (simp add: example_empty_def cv_eval)


subsection \<open>EmplaceBack followed by PopBack\<close>

text \<open>
  C9: for every vector a program can build (with chunks of at least one slot) and every
  value \<open>x\<close>, \<open>EmplaceBack(x)\<close> returns normally, the \<open>PopBack()\<close> that follows returns
  \<open>x\<close>, and the vector then has the sequence of elements it had before the
  \<open>EmplaceBack\<close>: iterating over it from \<open>begin()\<close> to \<open>end()\<close> visits the same values,
  and \<open>size()\<close> returns the same number.
\<close>

theorem EmplaceBack_PopBack:
  assumes "0 < K" "reachable K v"
  shows "\<exists>v1 v2. EmplaceBack K x v = Inr v1 \<and> PopBack v1 = Some (Inr (x, v2)) \<and>
           elements v2 = elements v \<and>
           iterate v = Some (Inr (elements v)) \<and> iterate v2 = Some (Inr (elements v)) \<and>
           size_ChunkedVector v = Some (Inr (length (elements v))) \<and>
           size_ChunkedVector v2 = Some (Inr (length (elements v)))"
proof -
  obtain as where inv: "invariant K v as"
    using reachable_invariant [OF assms] by blast
  obtain v1 as1 where v1: "EmplaceBack K x v = Inr v1" "invariant K v1 as1"
    "elements_of v1 as1 = elements_of v as @ [x]"
    using EmplaceBack_invariant [OF assms(1) inv] by blast
  then have "elements_of v1 as1 \<noteq> []" by simp
  then obtain y v2 as2 where v2: "PopBack v1 = Some (Inr (y, v2))" "invariant K v2 as2"
    "elements_of v1 as1 = elements_of v2 as2 @ [y]"
    using PopBack_invariant(1) [OF assms(1) v1(2)] by blast
  have y: "y = x" and el: "elements_of v2 as2 = elements_of v as"
    using v1(3) v2(3) by simp_all
  have "elements v2 = elements v"
    using el invariant_elements [OF inv] invariant_elements [OF v2(2)] by simp
  then show ?thesis
    using v1(1) v2(1) y invariant_size [OF inv] invariant_size [OF v2(2)]
      invariant_iterate [OF assms(1) inv] invariant_iterate [OF assms(1) v2(2)]
    by simp
qed

theorem EmplaceBack_PopBack_witness:
  "(0::nat) < 1 \<and> reachable 1 example_vector \<and> elements example_vector = [7] \<and>
   (\<exists>v1 v2. EmplaceBack 1 9 example_vector = Inr v1 \<and> PopBack v1 = Some (Inr (9, v2)) \<and>
      elements v2 = [7] \<and> iterate v2 = Some (Inr [7]) \<and>
      size_ChunkedVector v2 = Some (Inr 1))"
proof -
  obtain v1 v2 where "EmplaceBack 1 9 example_vector = Inr v1"
    "PopBack v1 = Some (Inr (9, v2))" "elements v2 = elements example_vector"
    "iterate v2 = Some (Inr (elements example_vector))"
    "size_ChunkedVector v2 = Some (Inr (length (elements example_vector)))"
    using EmplaceBack_PopBack [of 1 example_vector 9] reachable_example_vector by auto
  then show ?thesis
    using reachable_example_vector by (auto simp: elements_example_vector)
qed

subsection \<open>PopBack on non-empty and on empty vectors\<close>

text \<open>
  C10: for every vector a program can build (with chunks of at least one slot), \<open>size()\<close>
  returns the number of its elements; when that is not 0, no assertion of \<open>PopBack\<close> fires
  and \<open>PopBack\<close> returns the last element and removes it; when it is 0, \<open>PopBack\<close> ends in
  a failed assertion and returns no value.
\<close>

theorem PopBack_by_size:
  assumes "0 < K" "reachable K v"
  shows "size_ChunkedVector v = Some (Inr (length (elements v))) \<and>
         (elements v \<noteq> [] \<longrightarrow>
            (\<exists>v'. PopBack v = Some (Inr (last (elements v), v')) \<and>
                  elements v' = butlast (elements v))) \<and>
         (elements v = [] \<longrightarrow> PopBack v = Some (Inl AssertionFailed))"
proof -
  obtain as where inv: "invariant K v as"
    using reachable_invariant [OF assms] by blast
  have el: "elements v = elements_of v as"
    by (rule invariant_elements [OF inv])
  have "\<exists>v'. PopBack v = Some (Inr (last (elements v), v')) \<and>
                  elements v' = butlast (elements v)" if ne: "elements v \<noteq> []"
  proof -
    obtain y v' as' where p: "PopBack v = Some (Inr (y, v'))" "invariant K v' as'"
      "elements_of v as = elements_of v' as' @ [y]"
      using PopBack_invariant(1) [OF assms(1) inv] ne el by auto
    then show ?thesis
      using el invariant_elements [OF p(2)] by simp
  qed
  then show ?thesis
    using invariant_size [OF inv] PopBack_invariant(2) [OF assms(1) inv] el by simp
qed

theorem PopBack_by_size_witness:
  "(0::nat) < 1 \<and> reachable 1 example_vector \<and> elements example_vector = [7] \<and>
   size_ChunkedVector example_vector = Some (Inr 1) \<and>
   (\<exists>v'. PopBack example_vector = Some (Inr (7, v')) \<and> elements v' = []) \<and>
   reachable 1 example_empty \<and> elements example_empty = [] \<and>
   size_ChunkedVector example_empty = Some (Inr 0) \<and>
   PopBack example_empty = Some (Inl AssertionFailed)"
  using PopBack_by_size [of 1 example_vector] PopBack_by_size [of 1 example_empty]
    reachable_example_vector reachable_example_empty
  by (simp add: elements_example_vector elements_example_empty)

section \<open>Properties of the reclamation pipeline\<close>

lemma pending_sweeps_snoc: "pending_sweeps (tr @ [e]) = note_sweep (pending_sweeps tr) e"
  by (simp add: pending_sweeps_def)

lemma tiers_entered_snoc: "tiers_entered (tr @ [e]) = note_tier (tiers_entered tr) e"
  by (simp add: tiers_entered_def)

lemma respects_tier_order_snoc:
  "respects_tier_order (tr @ [e]) = (respects_tier_order tr \<and> in_order tr e)"
proof -
  have "(\<forall>n < Suc (length tr). in_order (take n (tr @ [e])) ((tr @ [e]) ! n))
      = ((\<forall>n < length tr. in_order (take n (tr @ [e])) ((tr @ [e]) ! n)) \<and>
         in_order (take (length tr) (tr @ [e])) ((tr @ [e]) ! length tr))"
    by (simp add: less_Suc_eq all_conj_distrib conj_commute)
  then show ?thesis
    by (simp add: respects_tier_order_def nth_append)
qed

lemma dispatch_all:
  assumes "respects_tier_order tr" "tiers_entered tr = tiers_below T" "pending_sweeps tr = {}"
  shows "respects_tier_order (tr @ Entered T # map (Dispatched T) ts) \<and>
         pending_sweeps (tr @ Entered T # map (Dispatched T) ts) = Pair T ` set ts \<and>
         tiers_entered (tr @ Entered T # map (Dispatched T) ts) = tiers_below T @ [T]"
proof (induction ts rule: rev_induct)
  case Nil
  then show ?case
    using assms
    by (simp add: respects_tier_order_snoc pending_sweeps_snoc tiers_entered_snoc)
next
  case (snoc a ts)
  let ?tr1 = "tr @ Entered T # map (Dispatched T) ts"
  have eq: "tr @ Entered T # map (Dispatched T) (ts @ [a]) = ?tr1 @ [Dispatched T a]"
    by simp
  have ih: "respects_tier_order ?tr1" "pending_sweeps ?tr1 = Pair T ` set ts"
    "tiers_entered ?tr1 = tiers_below T @ [T]"
    using snoc by blast+
  have io: "in_order ?tr1 (Dispatched T a)"
    using ih by auto
  have 1: "respects_tier_order (?tr1 @ [Dispatched T a])"
    using respects_tier_order_snoc [of ?tr1 "Dispatched T a"] ih(1) io by blast
  have 2: "pending_sweeps (?tr1 @ [Dispatched T a]) = Pair T ` set (ts @ [a])"
    using pending_sweeps_snoc [of ?tr1 "Dispatched T a"] ih(2) by auto
  have 3: "tiers_entered (?tr1 @ [Dispatched T a]) = tiers_below T @ [T]"
    using tiers_entered_snoc [of ?tr1 "Dispatched T a"] ih(3) by auto
  show ?case
    unfolding eq using 1 2 3 by blast
qed

lemma next_pass_last: "next_pass T = None \<Longrightarrow> tiers_below T @ [T] = [kBenign, kIdle, kDestructive]"
  by (cases T) auto

lemma next_pass_below: "next_pass T = Some T' \<Longrightarrow> tiers_below T' = tiers_below T @ [T]"
  by (cases T) auto

lemma enter_tier_tier_done_inv:
  "respects_tier_order (pipeline_trace p) \<Longrightarrow> tiers_entered (pipeline_trace p) = tiers_below T \<Longrightarrow>
   pending_sweeps (pipeline_trace p) = {} \<Longrightarrow> pipeline_inv (enter_tier w q T p)"
  "respects_tier_order (pipeline_trace p') \<Longrightarrow>
   tiers_entered (pipeline_trace p') = tiers_below T1 @ [T1] \<Longrightarrow>
   pending_sweeps (pipeline_trace p') = {} \<Longrightarrow> pipeline_inv (tier_done w' q' T1 p')"
proof (induction w q T p and w' q' T1 p' rule: enter_tier_tier_done.induct)
  case (1 w q T p)
  let ?ts = "sweep_targets w q T"
  let ?p1 = "p\<lparr>pipeline_state := Reclaiming T, outstanding := ?ts,
                pipeline_trace := pipeline_trace p @ Entered T # map (Dispatched T) ?ts\<rparr>"
  have d: "respects_tier_order (pipeline_trace ?p1)"
    "pending_sweeps (pipeline_trace ?p1) = Pair T ` set ?ts"
    "tiers_entered (pipeline_trace ?p1) = tiers_below T @ [T]"
    using dispatch_all [OF "1.prems", of ?ts] by simp_all
  show ?case
  proof (cases "?ts = []")
    case True
    have "pipeline_inv (tier_done w q T ?p1)"
      using "1.IH" [OF refl refl True d(1) d(3)] d(2) True by simp
    then show ?thesis
      using True by (subst enter_tier.simps) (simp add: Let_def)
  next
    case False
    have "pipeline_inv ?p1"
      using d by (simp add: pipeline_inv_def)
    then show ?thesis
      using False by (subst enter_tier.simps) (simp add: Let_def)
  qed
next
  case (2 w q T p)
  show ?case
  proof (cases "over_budget w q")
    case False
    then show ?thesis
      using "2.prems"
      by (subst tier_done.simps)
         (simp add: pipeline_inv_def respects_tier_order_snoc pending_sweeps_snoc
            tiers_entered_snoc)
  next
    case True
    show ?thesis
    proof (cases "next_pass T")
      case None
      then show ?thesis
        using True "2.prems" next_pass_last [OF None]
        by (subst tier_done.simps)
           (simp add: pipeline_inv_def respects_tier_order_snoc pending_sweeps_snoc
              tiers_entered_snoc)
    next
      case (Some T')
      have "pipeline_inv (enter_tier w q T' p)"
        using "2.IH" [OF _ Some "2.prems"(1) _ "2.prems"(3)] True "2.prems"(2)
          next_pass_below [OF Some] by simp
      then show ?thesis
        using True Some by (subst tier_done.simps) simp
    qed
  qed
qed

lemma pipeline_step_inv:
  assumes "pipeline_inv p"
  shows "pipeline_inv (pipeline_step w q i p)"
proof (cases i)
  case UsageChanged
  show ?thesis
  proof (cases "pipeline_state p")
    case (Reclaiming T)
    then show ?thesis using assms UsageChanged by (simp add: pipeline_step_def)
  next
    case Normal
    then have "pipeline_inv (enter_tier w q kBenign p)"
      using assms by (intro enter_tier_tier_done_inv(1)) (simp_all add: pipeline_inv_def)
    then show ?thesis using assms UsageChanged Normal by (simp add: pipeline_step_def)
  next
    case Exhausted
    then have "pipeline_inv (enter_tier w q kBenign p)"
      using assms by (intro enter_tier_tier_done_inv(1)) (simp_all add: pipeline_inv_def)
    then show ?thesis using assms UsageChanged Exhausted by (simp add: pipeline_step_def)
  qed
next
  case (SweepCompleted a)
  show ?thesis
  proof (cases "pipeline_state p")
    case (Reclaiming T)
    show ?thesis
    proof (cases "a \<in> set (outstanding p)")
      case False
      then show ?thesis using assms SweepCompleted Reclaiming by (simp add: pipeline_step_def)
    next
      case True
      let ?p1 = "p\<lparr>outstanding := removeAll a (outstanding p),
                    pipeline_trace := pipeline_trace p @ [Completed T a]\<rparr>"
      have r: "respects_tier_order (pipeline_trace ?p1)"
        and t: "tiers_entered (pipeline_trace ?p1) = tiers_below T @ [T]"
        and s: "pending_sweeps (pipeline_trace ?p1) = Pair T ` set (outstanding ?p1)"
        using assms Reclaiming
        by (auto simp: pipeline_inv_def respects_tier_order_snoc pending_sweeps_snoc
              tiers_entered_snoc)
      show ?thesis
      proof (cases "outstanding ?p1 = []")
        case True
        then have "pipeline_inv (tier_done w q T ?p1)"
          using r t s by (intro enter_tier_tier_done_inv(2)) simp_all
        then show ?thesis
          using SweepCompleted Reclaiming \<open>a \<in> set (outstanding p)\<close> True
          by (simp add: pipeline_step_def)
      next
        case False
        have "pipeline_inv ?p1"
          using r t s Reclaiming by (simp add: pipeline_inv_def)
        then show ?thesis
          using SweepCompleted Reclaiming \<open>a \<in> set (outstanding p)\<close> False
          by (simp add: pipeline_step_def)
      qed
    qed
  next
    case Normal
    then show ?thesis using assms SweepCompleted by (simp add: pipeline_step_def)
  next
    case Exhausted
    then show ?thesis using assms SweepCompleted by (simp add: pipeline_step_def)
  qed
qed

lemma pipeline_run_inv: "pipeline_inv p \<Longrightarrow> pipeline_inv (pipeline_run q ins p)"
  by (induction ins arbitrary: p) (auto simp: pipeline_step_inv)

lemma new_Pipeline_inv: "pipeline_inv new_Pipeline"
  by (simp add: pipeline_inv_def new_Pipeline_def respects_tier_order_def pending_sweeps_def
        tiers_entered_def)

lemma pressure_world_over: "over_budget pressure_world 0"
  by (simp add: pressure_world_def pressure_fuzzer_def pressure_msg_def example_env_def new_Fuzzer_def
        new_MemoryQuota_def CreateMemoryOwner_def WithQuota_def WithAllocator_def
        PostReclaimer_def MakeReservation_def SetSize_def NoteUsageChanged_def Clamp_def
        ssize_max_def over_budget_def Let_def)

lemma pressure_world_targets:
  "sweep_targets pressure_world 0 kBenign = [0]"
  "sweep_targets pressure_world 0 kIdle = [1]"
  "sweep_targets pressure_world 0 kDestructive = []"
  by (simp_all add: pressure_world_def pressure_fuzzer_def pressure_msg_def example_env_def new_Fuzzer_def
        new_MemoryQuota_def CreateMemoryOwner_def WithQuota_def WithAllocator_def
        PostReclaimer_def MakeReservation_def SetSize_def NoteUsageChanged_def Clamp_def
        ssize_max_def sweep_targets_def Let_def upt_rec numeral_2_eq_2)

lemma pressure_run:
  "pipeline_trace (pipeline_run 0
     [(pressure_world, UsageChanged), (pressure_world, SweepCompleted 0),
      (pressure_world, SweepCompleted 1)] new_Pipeline)
   = [Entered kBenign, Dispatched kBenign 0, Completed kBenign 0,
      Entered kIdle, Dispatched kIdle 1, Completed kIdle 1,
      Entered kDestructive, GaveUp]"
  by (simp add: pipeline_step_def new_Pipeline_def enter_tier.simps tier_done.simps
        pressure_world_over pressure_world_targets)

text \<open>
  C8: in every run of the reclamation pipeline of a Quota, whatever the quotas and owners
  do in between, the tiers are attempted in the order \<open>Benign\<close>, \<open>Idle\<close>, \<open>Destructive\<close>:
  a tier is entered only after all tiers below it, none is skipped, and no tier is entered
  and no sweep of it dispatched while a sweep of a lower tier has not signalled completion.
\<close>

theorem reclamation_tiers_in_order:
  "respects_tier_order (pipeline_trace (pipeline_run q ins new_Pipeline))"
  using pipeline_run_inv [OF new_Pipeline_inv] by (simp add: pipeline_inv_def)

theorem reclamation_tiers_in_order_witness:
  "pipeline_trace (pipeline_run 0
     [(pressure_world, UsageChanged), (pressure_world, SweepCompleted 0),
      (pressure_world, SweepCompleted 1)] new_Pipeline)
   = [Entered kBenign, Dispatched kBenign 0, Completed kBenign 0,
      Entered kIdle, Dispatched kIdle 1, Completed kIdle 1,
      Entered kDestructive, GaveUp] \<and>
   respects_tier_order
     [Entered kBenign, Dispatched kBenign 0, Completed kBenign 0,
      Entered kIdle, Dispatched kIdle 1, Completed kIdle 1,
      Entered kDestructive, GaveUp]"
  using reclamation_tiers_in_order [of 0
     "[(pressure_world, UsageChanged), (pressure_world, SweepCompleted 0),
      (pressure_world, SweepCompleted 1)]"]
  by (simp only: pressure_run simp_thms)

section \<open>Properties of the fuzzer\<close>

lemma example_fuzzer_quota: "memory_quotas example_fuzzer 0 = Some 0"
  by (simp add: example_fuzzer_def example_env_def new_Fuzzer_def new_MemoryQuota_def
        CreateMemoryOwner_def WithQuota_def)

lemma example_fuzzer_allocator: "memory_allocators example_fuzzer 0 = Some 0"
  by (simp add: example_fuzzer_def example_env_def new_Fuzzer_def new_MemoryQuota_def
        CreateMemoryOwner_def WithQuota_def)

lemma example_fuzzer_allocations: "allocations example_fuzzer = Map.empty"
  by (simp add: example_fuzzer_def example_env_def new_Fuzzer_def new_MemoryQuota_def
        CreateMemoryOwner_def WithQuota_def)

lemma example_fuzzer_world:
  "world example_fuzzer =
     \<lparr>quota_store = (\<lambda>_. \<lparr>size_limit = 0, quota_used = 0, reclamation_scheduled = False\<rparr>)
        (0 := \<lparr>size_limit = unat ssize_max, quota_used = 0, reclamation_scheduled = False\<rparr>),
      quota_count = 1,
      owner_store = (\<lambda>_. \<lparr>bound_quota = 0, attributed = 0, reclaimers = (\<lambda>p. None)\<rparr>)
        (0 := \<lparr>bound_quota = 0, attributed = 0, reclaimers = (\<lambda>p. None)\<rparr>),
      owner_count = 1\<rparr>"
  by (simp add: example_fuzzer_def example_env_def new_Fuzzer_def new_MemoryQuota_def
        CreateMemoryOwner_def WithQuota_def)

lemma Clamp_ssize_max: "Clamp n 0 ssize_max = (if n \<le> ssize_max then n else ssize_max)"
  by (auto simp: Clamp_def)

lemma MakeReservation_granted:
  "MakeReservation a mn mx w = (r, w') \<Longrightarrow> mn \<le> mx \<Longrightarrow> mn \<le> granted r \<and> granted r \<le> mx"
  by (auto simp: MakeReservation_def Clamp_def Let_def)

text \<open>
  C1: a \<open>kCreateAllocation\<close> request with \<open>min > max\<close>, or with \<open>max\<close> above
  \<open>MemoryRequest::max_allowed_size()\<close>, is rejected before any state mutation: the
  fuzzer (registries, quotas, allocators, allocations) is left exactly as it was.
\<close>

theorem create_allocation_rejected_unchanged:
  "mn > mx \<or> mx > max_allowed_size env \<Longrightarrow>
   RunAction env (Action qid aid rid (kCreateAllocation mn mx)) s = s"
  by auto

theorem create_allocation_rejected_unchanged_witness:
  "(5::nat) > 3 \<and> memory_allocators example_fuzzer 0 = Some 0 \<and>
   RunAction example_env (Action 0 0 0 (kCreateAllocation 5 3)) example_fuzzer = example_fuzzer \<and>
   (2000::nat) > max_allowed_size example_env \<and>
   RunAction example_env (Action 0 0 0 (kCreateAllocation 0 2000)) example_fuzzer = example_fuzzer"
  using create_allocation_rejected_unchanged [where mn = 5 and mx = 3 and env = example_env
      and qid = 0 and aid = 0 and rid = 0 and s = example_fuzzer]
    create_allocation_rejected_unchanged [where mn = 0 and mx = 2000 and env = example_env
      and qid = 0 and aid = 0 and rid = 0 and s = example_fuzzer]
  by (simp add: example_fuzzer_allocator example_env_def)

text \<open>
  C3, as amended: a request is turned away only when \<open>min > max\<close> or when \<open>max\<close> exceeds
  \<open>MemoryRequest::max_allowed_size()\<close>. Every request with \<open>min \<le> max\<close> and \<open>max\<close> within
  the cap, made on a live allocator under an unused allocation id, yields a recorded
  Reservation of at least \<open>min\<close> bytes, whatever the budget of the Quota.
\<close>

theorem create_allocation_succeeds_within_cap:
  "mn \<le> mx \<Longrightarrow> mx \<le> max_allowed_size env \<Longrightarrow> memory_allocators s aid = Some a \<Longrightarrow>
   allocations s rid = None \<Longrightarrow>
   \<exists>r. allocations (RunAction env (Action qid aid rid (kCreateAllocation mn mx)) s) rid = Some r
     \<and> mn \<le> granted r"
  by (auto simp: WithAllocator_def split: if_splits option.splits prod.splits
           dest: MakeReservation_granted)

theorem create_allocation_succeeds_within_cap_witness:
  "(10::nat) \<le> 50 \<and> 50 \<le> max_allowed_size example_env \<and>
   memory_allocators pressure_fuzzer 0 = Some 0 \<and> allocations pressure_fuzzer 7 = None \<and>
   over_budget (world pressure_fuzzer) 0 \<and>
   (\<exists>r. allocations (RunAction example_env (Action 0 0 7 (kCreateAllocation 10 50))
           pressure_fuzzer) 7 = Some r \<and> 10 \<le> granted r)"
proof -
  have a: "memory_allocators pressure_fuzzer 0 = Some 0"
    by (simp add: pressure_fuzzer_def pressure_msg_def example_env_def new_Fuzzer_def
          new_MemoryQuota_def CreateMemoryOwner_def WithQuota_def WithAllocator_def
          MakeReservation_def Let_def)
  have r: "allocations pressure_fuzzer 7 = None"
    by (simp add: pressure_fuzzer_def pressure_msg_def example_env_def new_Fuzzer_def
          new_MemoryQuota_def CreateMemoryOwner_def WithQuota_def WithAllocator_def
          MakeReservation_def Let_def)
  have o: "over_budget (world pressure_fuzzer) 0"
    using pressure_world_over by (simp add: pressure_world_def)
  show ?thesis
    using a r o create_allocation_succeeds_within_cap [where mn = 10 and mx = 50
      and env = example_env and s = pressure_fuzzer and aid = 0 and a = 0 and rid = 7
      and qid = 0]
    by (simp add: example_env_def)
qed

text \<open>
  The claim as stated fails: with \<open>min = 0\<close> and \<open>max = 2000\<close> under a cap of 1024,
  \<open>min \<le> max\<close> and \<open>min\<close> is within the cap, the allocator is live, and yet no
  Reservation is made.
\<close>

theorem create_allocation_min_within_cap_rejected:
  "(0::nat) \<le> 2000 \<and> 0 \<le> max_allowed_size example_env \<and>
   memory_allocators example_fuzzer 0 = Some 0 \<and>
   allocations (RunAction example_env (Action 0 0 7 (kCreateAllocation 0 2000))
     example_fuzzer) 7 = None"
  by (simp add: example_fuzzer_allocator example_fuzzer_allocations example_env_def)

text \<open>
  C4: \<open>kSetQuotaSize\<close>, \<open>kCreateAllocator\<close> and \<open>kRebindQuota\<close> with a quota id that is
  not in \<open>memory_quotas\<close>, and \<open>kRebindQuota\<close>, \<open>kCreateAllocation\<close> and
  \<open>kPostReclaimer\<close> with an allocator id that is not in \<open>memory_allocators\<close>, return
  normally and leave the whole fuzzer unchanged.
\<close>

theorem unknown_handle_noop:
  "(memory_quotas s qid = None \<longrightarrow>
      RunAction env (Action qid aid rid (kSetQuotaSize n)) s = s \<and>
      RunAction env (Action qid aid rid kCreateAllocator) s = s \<and>
      RunAction env (Action qid aid rid kRebindQuota) s = s) \<and>
   (memory_allocators s aid = None \<longrightarrow>
      RunAction env (Action qid aid rid kRebindQuota) s = s \<and>
      RunAction env (Action qid aid rid (kCreateAllocation mn mx)) s = s \<and>
      RunAction env (Action qid aid rid (kPostReclaimer sync p m)) s = s)"
  by (simp add: WithQuota_def WithAllocator_def split: option.splits)

theorem unknown_handle_noop_witness:
  "memory_quotas example_fuzzer 5 = None \<and> memory_allocators example_fuzzer 6 = None \<and>
   RunAction example_env (Action 5 0 0 (kSetQuotaSize 100)) example_fuzzer = example_fuzzer \<and>
   RunAction example_env (Action 5 1 0 kCreateAllocator) example_fuzzer = example_fuzzer \<and>
   RunAction example_env (Action 5 0 0 kRebindQuota) example_fuzzer = example_fuzzer \<and>
   RunAction example_env (Action 0 6 0 kRebindQuota) example_fuzzer = example_fuzzer \<and>
   RunAction example_env (Action 0 6 0 (kCreateAllocation 1 2)) example_fuzzer = example_fuzzer \<and>
   RunAction example_env (Action 0 6 0 (kPostReclaimer False IDLE [])) example_fuzzer
     = example_fuzzer"
proof -
  have q: "memory_quotas example_fuzzer 5 = None"
    by (simp add: example_fuzzer_def example_env_def new_Fuzzer_def new_MemoryQuota_def
          CreateMemoryOwner_def WithQuota_def)
  have a: "memory_allocators example_fuzzer 6 = None"
    by (simp add: example_fuzzer_def example_env_def new_Fuzzer_def new_MemoryQuota_def
          CreateMemoryOwner_def WithQuota_def)
  show ?thesis
    using q a
      unknown_handle_noop [where s = example_fuzzer and qid = 5 and env = example_env
        and aid = 0 and rid = 0 and n = 100]
      unknown_handle_noop [where s = example_fuzzer and qid = 5 and env = example_env
        and aid = 1 and rid = 0]
      unknown_handle_noop [where s = example_fuzzer and qid = 0 and env = example_env
        and aid = 6 and rid = 0 and mn = 1 and mx = 2 and sync = False and p = IDLE
        and m = "[]"]
    by simp
qed

text \<open>
  C5: every Reservation that \<open>kCreateAllocation\<close> records under a new allocation id, that
  is, every Reservation \<open>MakeReservation(min, max)\<close> produces behind the guards of the
  fuzzer, has \<open>min \<le> granted \<le> max\<close> and \<open>granted\<close> within
  \<open>MemoryRequest::max_allowed_size()\<close>.
\<close>

theorem reservation_granted_bounds:
  "allocations s rid = None \<Longrightarrow>
   allocations (RunAction env (Action qid aid rid (kCreateAllocation mn mx)) s) rid = Some r \<Longrightarrow>
   mn \<le> granted r \<and> granted r \<le> mx \<and> granted r \<le> max_allowed_size env"
  by (auto simp: WithAllocator_def split: if_splits option.splits prod.splits
           dest: MakeReservation_granted)

theorem reservation_granted_bounds_witness:
  "allocations example_fuzzer 7 = None \<and>
   allocations (RunAction example_env (Action 0 0 7 (kCreateAllocation 10 50)) example_fuzzer) 7
     = Some \<lparr>issuer = 0, granted = 50\<rparr> \<and>
   (10::nat) \<le> granted \<lparr>issuer = 0, granted = 50\<rparr> \<and>
   granted \<lparr>issuer = 0, granted = 50\<rparr> \<le> (50::nat) \<and>
   granted \<lparr>issuer = 0, granted = 50\<rparr> \<le> max_allowed_size example_env"
proof -
  have r: "allocations (RunAction example_env (Action 0 0 7 (kCreateAllocation 10 50))
             example_fuzzer) 7 = Some \<lparr>issuer = 0, granted = 50\<rparr>"
    by (simp add: example_fuzzer_allocator example_fuzzer_allocations example_fuzzer_world
          example_env_def WithAllocator_def MakeReservation_def Clamp_def ssize_max_def)
  show ?thesis
    using r reservation_granted_bounds [where s = example_fuzzer and rid = 7
        and env = example_env and qid = 0 and aid = 0 and mn = 10 and mx = 50
        and r = "\<lparr>issuer = 0, granted = 50\<rparr>"]
    by (simp add: example_fuzzer_allocations)
qed

text \<open>
  C6: deleting the same quota, allocator or allocation id a second time changes nothing:
  after the first \<open>erase\<close> the id is gone, and the second \<open>erase\<close> finds no entry.
\<close>

theorem delete_twice_noop:
  "RunAction env (Action qid aid rid kDeleteQuota)
     (RunAction env (Action qid aid rid kDeleteQuota) s) =
   RunAction env (Action qid aid rid kDeleteQuota) s \<and>
   RunAction env (Action qid aid rid kDeleteAllocator)
     (RunAction env (Action qid aid rid kDeleteAllocator) s) =
   RunAction env (Action qid aid rid kDeleteAllocator) s \<and>
   RunAction env (Action qid aid rid kDeleteAllocation)
     (RunAction env (Action qid aid rid kDeleteAllocation) s) =
   RunAction env (Action qid aid rid kDeleteAllocation) s"
  by (simp split: option.splits)

theorem delete_twice_noop_witness:
  "memory_quotas example_fuzzer 0 = Some 0 \<and>
   memory_quotas (RunAction example_env (Action 0 0 0 kDeleteQuota) example_fuzzer) 0 = None \<and>
   RunAction example_env (Action 0 0 0 kDeleteQuota)
     (RunAction example_env (Action 0 0 0 kDeleteQuota) example_fuzzer) =
   RunAction example_env (Action 0 0 0 kDeleteQuota) example_fuzzer \<and>
   memory_allocators example_fuzzer 0 = Some 0 \<and>
   memory_allocators (RunAction example_env (Action 0 0 0 kDeleteAllocator) example_fuzzer) 0
     = None \<and>
   RunAction example_env (Action 0 0 0 kDeleteAllocator)
     (RunAction example_env (Action 0 0 0 kDeleteAllocator) example_fuzzer) =
   RunAction example_env (Action 0 0 0 kDeleteAllocator) example_fuzzer"
  using delete_twice_noop [where env = example_env and qid = 0 and aid = 0 and rid = 0
      and s = example_fuzzer]
  by (simp add: example_fuzzer_quota example_fuzzer_allocator)

text \<open>
  C7, as amended: after \<open>kSetQuotaSize\<close> with value \<open>n\<close> on a live Quota, its \<open>size_limit\<close>
  is \<open>n\<close> clamped to \<open>std::numeric_limits<ssize_t>::max()\<close>: exactly \<open>n\<close> when \<open>n\<close> is at
  most that bound, and the bound itself for every larger \<open>n\<close>.
\<close>

theorem set_quota_size_clamped:
  "memory_quotas s qid = Some q \<Longrightarrow>
   size_limit (quota_store (world (RunAction env (Action qid aid rid (kSetQuotaSize n)) s)) q) =
     (if n \<le> ssize_max then unat n else unat ssize_max)"
  by (simp add: WithQuota_def SetSize_def NoteUsageChanged_def Clamp_ssize_max)

theorem set_quota_size_clamped_witness:
  "memory_quotas example_fuzzer 0 = Some 0 \<and>
   size_limit (quota_store (world (RunAction example_env (Action 0 0 0 (kSetQuotaSize 100))
     example_fuzzer)) 0) = 100"
  using set_quota_size_clamped [where s = example_fuzzer and qid = 0 and q = 0
      and env = example_env and aid = 0 and rid = 0 and n = 100]
  by (simp add: example_fuzzer_quota ssize_max_def)

text \<open>
  The claim as stated fails at \<open>n = 2^63\<close>, a value of the 64-bit field: the Quota is
  live and its \<open>size_limit\<close> afterwards is not \<open>n\<close>.
\<close>

theorem set_quota_size_not_exact:
  "memory_quotas example_fuzzer 0 = Some 0 \<and>
   size_limit (quota_store (world (RunAction example_env
     (Action 0 0 0 (kSetQuotaSize 0x8000000000000000)) example_fuzzer)) 0)
     \<noteq> unat (0x8000000000000000 :: 64 word)"
  by (simp add: example_fuzzer_quota WithQuota_def SetSize_def NoteUsageChanged_def Clamp_def
        ssize_max_def)

text \<open>
  C2 fails on the code for a synchronous reclaimer: the closure is built and never
  posted. On the live allocator 0, \<open>kPostReclaimer\<close> with \<open>synchronous\<close> set leaves the
  Owner without a reclaimer for the pass and the fuzzer unchanged.
\<close>

theorem post_reclaimer_synchronous_not_stored:
  "memory_allocators example_fuzzer 0 = Some 0 \<and>
   reclaimers (owner_store (world (RunAction example_env
     (Action 0 0 0 (kPostReclaimer True BENIGN [])) example_fuzzer)) 0) kBenign = None \<and>
   RunAction example_env (Action 0 0 0 (kPostReclaimer True BENIGN [])) example_fuzzer
     = example_fuzzer"
  by (simp add: example_fuzzer_allocator example_fuzzer_world)

text \<open>The asynchronous branch does post: the closure becomes the reclaimer of the pass.\<close>

lemma post_reclaimer_asynchronous_stored:
  "memory_allocators s aid = Some a \<Longrightarrow>
   reclaimers (owner_store (world (RunAction env
     (Action qid aid rid (kPostReclaimer False p m)) s)) a) (MapReclamationPass p)
     = Some (AsyncReclaimer m)"
  by (simp add: WithAllocator_def PostReclaimer_def)

end
